theory Spec2Isabelle
  imports Main
begin

section \<open>The host editor\<close>

text \<open>
  The plugin works on the editor of its host application. The buffer is a sequence of
  lines; \<open>editor.lineCount()\<close> is its length and \<open>editor.getLine(i)\<close> its
  \<open>i\<close>-th line (zero-based). A JavaScript string is modelled as a \<open>string\<close>;
  code units above 255 are outside the model.
\<close>

type_synonym Editor = "string list"

definition lineCount :: "Editor \<Rightarrow> int" where
  "lineCount ed = int (length ed)"

definition getLine :: "Editor \<Rightarrow> int \<Rightarrow> string" where
  "getLine ed i = ed ! nat i"

record EditorPosition =
  line :: int
  ch :: int

record EditorChange =
  change_from :: EditorPosition
  change_to :: EditorPosition
  change_text :: string

text \<open>
  Modelled from the spec: the host's batched range replacement (\<open>editor.transaction\<close>)
  is not part of the repository. The spec describes it as "a batched range-replace
  operation accepting a list of (lineIndex, startColumn, endColumn, replacementText)
  tuples applied as a single logical edit": every change addresses the buffer as it was
  before the edit. The plugin only builds changes that stay within one line, and the
  model replaces the columns \<open>[ch from, ch to)\<close> of that line of the old buffer.
\<close>

definition replace_in_line :: "string \<Rightarrow> int \<Rightarrow> int \<Rightarrow> string \<Rightarrow> string" where
  "replace_in_line l a b t = take (nat a) l @ t @ drop (nat b) l"

definition apply_change :: "Editor \<Rightarrow> EditorChange \<Rightarrow> Editor \<Rightarrow> Editor" where
  "apply_change old c ed =
     ed[nat (line (change_from c)) :=
          replace_in_line (old ! nat (line (change_from c)))
            (ch (change_from c)) (ch (change_to c)) (change_text c)]"

definition transaction :: "Editor \<Rightarrow> EditorChange list \<Rightarrow> Editor" where
  "transaction ed changes = fold (apply_change ed) changes ed"

text \<open>
  Modelled from the spec: a document text and the buffer's lines. The host splits the text
  at line feeds, so a text that ends with a line feed has an empty last line.
\<close>

fun split_lines :: "string \<Rightarrow> string \<Rightarrow> string list" where
  "split_lines acc [] = [rev acc]"
| "split_lines acc (c # cs) =
     (if c = CHR 0x0A then rev acc # split_lines [] cs else split_lines (c # acc) cs)"

definition editor_of_text :: "string \<Rightarrow> Editor" where
  "editor_of_text s = split_lines [] s"

fun text_of_editor :: "Editor \<Rightarrow> string" where
  "text_of_editor [] = []"
| "text_of_editor [l] = l"
| "text_of_editor (l # ls) = l @ [CHR 0x0A] @ text_of_editor ls"

section \<open>Header objects\<close>

datatype AdjustmentOperation = increase | decrease

text \<open>
  The source's \<open>HeaderObject\<close> instances refer to each other (\<open>parent\<close>,
  \<open>children\<close>). Every instance that \<open>parseHeaders\<close> creates is pushed on its
  \<open>headers\<close> array, so a reference is modelled as the position of the object in that
  array, and a mutation of an object as an update of the array at that position.
\<close>

text \<open>
  The numbers of the source are modelled as integers: levels and line numbers are integers
  by construction, and the callers pass an integer number of levels.
\<close>

record HeaderObject =
  level :: int
  originalLevel :: int
  lineNumber :: int
  content :: string
  parent :: "nat option"
  children :: "nat list"

definition new_HeaderObject :: "int \<Rightarrow> int \<Rightarrow> string \<Rightarrow> nat option \<Rightarrow> HeaderObject" where
  "new_HeaderObject lv ln c p =
     \<lparr>level = lv, originalLevel = lv, lineNumber = ln, content = c, parent = p, children = []\<rparr>"

subsection \<open>The header pattern\<close>

text \<open>
  \<open>\s\<close> of a JavaScript regular expression, on the code units below 256: tab, line
  feed, vertical tab, form feed, carriage return, space and no-break space. The dot
  matches every code unit but a line terminator.
\<close>

definition js_whitespace :: "char \<Rightarrow> bool" where
  "js_whitespace c = (c \<in> set [CHR 0x09, CHR 0x0A, CHR 0x0B, CHR 0x0C, CHR 0x0D, CHR 0x20, CHR 0xA0])"

definition js_line_terminator :: "char \<Rightarrow> bool" where
  "js_line_terminator c = (c = CHR 0x0A \<or> c = CHR 0x0D)"

text \<open>
  \<open>lineText.match(/^(#{1,6})\s+(.*)$/)\<close>: the two groups of the match, or \<open>None\<close>
  for \<open>null\<close>. The pattern is anchored at both ends and has no flags. The first group
  can only be the whole run of leading hashes, since a white space character must follow
  it; the run has at most six hashes for the same reason. \<open>\s+\<close> is greedy and takes
  all the white space that follows; giving some of it back never helps, because the dot
  would then have to match what is behind it as well. So the second group is what is left
  behind the white space, and it must be free of line terminators to reach the end.
\<close>

definition HEADER_REGEX :: "string \<Rightarrow> (string \<times> string) option" where
  "HEADER_REGEX s =
     (let hashes = takeWhile (\<lambda>c. c = CHR ''#'') s;
          rest = dropWhile (\<lambda>c. c = CHR ''#'') s;
          spaces = takeWhile js_whitespace rest;
          body = dropWhile js_whitespace rest
      in if 1 \<le> length hashes \<and> length hashes \<le> 6 \<and> spaces \<noteq> []
            \<and> list_all (\<lambda>c. \<not> js_line_terminator c) body
         then Some (hashes, body) else None)"

section \<open>The parser\<close>

text \<open>
  The loop \<open>while (parentCandidate && parentCandidate.level >= currentLevel)
  parentCandidate = parentCandidate.parent\<close>. Nothing in the loop itself bounds it, so
  it is a partial function: \<open>None\<close> stands for a loop that does not return, and
  \<open>Some c\<close> for the candidate \<open>c\<close> it ends with (\<open>None\<close> for \<open>null\<close>).
\<close>

partial_function (option) find_ancestor ::
  "HeaderObject list \<Rightarrow> nat option \<Rightarrow> int \<Rightarrow> nat option option" where
  "find_ancestor hs parentCandidate currentLevel =
     (case parentCandidate of
        None \<Rightarrow> Some None
      | Some p \<Rightarrow>
          if level (hs ! p) \<ge> currentLevel
          then find_ancestor hs (parent (hs ! p)) currentLevel
          else Some (Some p))"

declare find_ancestor.simps [code]

record ParseState =
  headers :: "HeaderObject list"
  lastHeader :: "nat option"

definition push_child :: "HeaderObject list \<Rightarrow> nat \<Rightarrow> nat \<Rightarrow> HeaderObject list" where
  "push_child hs p k = hs[p := (hs ! p)\<lparr>children := children (hs ! p) @ [k]\<rparr>]"

text \<open>The body of the \<open>for\<close> loop of \<open>parseHeaders\<close>, for the line \<open>i\<close>.\<close>

definition parse_line :: "Editor \<Rightarrow> ParseState \<Rightarrow> int \<Rightarrow> ParseState option" where
  "parse_line ed st i =
     (case HEADER_REGEX (getLine ed i) of
        None \<Rightarrow> Some st
      | Some (hashes, body) \<Rightarrow>
          (let currentLevel = int (length hashes);
               k = length (headers st);
               newHeader = new_HeaderObject currentLevel (i + 1) body None
           in case lastHeader st of
                None \<Rightarrow>
                  Some \<lparr>headers = headers st @ [newHeader], lastHeader = Some k\<rparr>
              | Some l \<Rightarrow>
                  if currentLevel > level (headers st ! l)
                  then Some \<lparr>headers = push_child (headers st) l k @ [newHeader\<lparr>parent := Some l\<rparr>],
                             lastHeader = Some k\<rparr>
                  else (case find_ancestor (headers st) (parent (headers st ! l)) currentLevel of
                          None \<Rightarrow> None
                        | Some parentCandidate \<Rightarrow>
                            Some \<lparr>headers =
                                    (case parentCandidate of
                                       None \<Rightarrow> headers st
                                     | Some p \<Rightarrow> push_child (headers st) p k)
                                    @ [newHeader\<lparr>parent := parentCandidate\<rparr>],
                                  lastHeader = Some k\<rparr>)))"

fun parse_loop :: "Editor \<Rightarrow> ParseState \<Rightarrow> int list \<Rightarrow> ParseState option" where
  "parse_loop ed st [] = Some st"
| "parse_loop ed st (i # is) =
     (case parse_line ed st i of None \<Rightarrow> None | Some st' \<Rightarrow> parse_loop ed st' is)"

definition parseHeaders :: "Editor \<Rightarrow> int \<Rightarrow> int \<Rightarrow> HeaderObject list option" where
  "parseHeaders ed fromLine toLine =
     (let start = max 0 fromLine;
          end = min (lineCount ed - 1) toLine
      in map_option headers
           (parse_loop ed \<lparr>headers = [], lastHeader = None\<rparr> [start..end]))"

section \<open>The level adjuster\<close>

text \<open>
  The inner \<open>header.children.forEach\<close> of the increase branch: it reads the current
  level of each child in turn and lowers \<open>newLevel\<close> below it.
\<close>

definition below_children :: "HeaderObject list \<Rightarrow> nat list \<Rightarrow> int \<Rightarrow> int" where
  "below_children hs cs newLevel =
     fold (\<lambda>c nl. if nl \<ge> level (hs ! c) then level (hs ! c) - 1 else nl) cs newLevel"

text \<open>
  The body of \<open>sortedHeaders.forEach\<close>: the value it computes for \<open>header\<close>, and
  the assignment \<open>header.level = ...\<close> to the header at position \<open>i\<close>.
\<close>

definition new_level :: "AdjustmentOperation \<Rightarrow> int \<Rightarrow> HeaderObject list \<Rightarrow> HeaderObject \<Rightarrow> int" where
  "new_level operation levels hs header =
     (if operation = decrease then
        (let newLevel = originalLevel header - levels;
             newLevel = max 1 newLevel;
             newLevel = (case parent header of
                           None \<Rightarrow> newLevel
                         | Some p \<Rightarrow> if newLevel \<le> level (hs ! p) then level (hs ! p) + 1 else newLevel)
         in min newLevel 6)
      else
        (let newLevel = originalLevel header + levels;
             newLevel = min 6 newLevel;
             newLevel = below_children hs (children header) newLevel
         in max 1 newLevel))"

definition update_header :: "AdjustmentOperation \<Rightarrow> int \<Rightarrow> nat \<Rightarrow> HeaderObject list \<Rightarrow> HeaderObject list" where
  "update_header operation levels i hs =
     hs[i := (hs ! i)\<lparr>level := new_level operation levels hs (hs ! i)\<rparr>]"

definition updateHeaderLevels :: "HeaderObject list \<Rightarrow> AdjustmentOperation \<Rightarrow> int \<Rightarrow> HeaderObject list" where
  "updateHeaderLevels hs operation levels =
     (let sortedHeaders = (if operation = decrease then [0..<length hs] else rev [0..<length hs])
      in fold (update_header operation levels) sortedHeaders hs)"

section \<open>The change applier\<close>

text \<open>
  \<open>s.repeat(n)\<close> throws a \<open>RangeError\<close> for a negative count; \<open>None\<close> stands
  for a call that does not return.
\<close>

definition js_repeat :: "string \<Rightarrow> int \<Rightarrow> string option" where
  "js_repeat s n = (if n < 0 then None else Some (concat (replicate (nat n) s)))"

text \<open>
  The callback of \<open>sortedHeaders.map\<close>: \<open>Some None\<close> is the \<open>null\<close> it returns
  for a header whose level did not change.
\<close>

definition potential_change :: "HeaderObject \<Rightarrow> EditorChange option option" where
  "potential_change header =
     (if level header = originalLevel header then Some None
      else case js_repeat ''#'' (level header) of
             None \<Rightarrow> None
           | Some hashes \<Rightarrow>
               (let newHeaderPrefix = hashes @ '' '';
                    lineIndex = lineNumber header - 1
                in Some (Some \<lparr>change_from = \<lparr>line = lineIndex, ch = 0\<rparr>,
                               change_to = \<lparr>line = lineIndex, ch = originalLevel header\<rparr>,
                               change_text = newHeaderPrefix\<rparr>)))"

text \<open>
  \<open>[...headers].sort((a, b) => b.lineNumber - a.lineNumber)\<close> is a stable sort by
  descending line number.
\<close>

definition sort_descending :: "HeaderObject list \<Rightarrow> HeaderObject list" where
  "sort_descending hs = sort_key (\<lambda>h. - lineNumber h) hs"

definition applyHeaderChanges :: "Editor \<Rightarrow> HeaderObject list \<Rightarrow> Editor option" where
  "applyHeaderChanges ed hs =
     (let sortedHeaders = sort_descending hs in
      case those (map potential_change sortedHeaders) of
        None \<Rightarrow> None
      | Some potentialChanges \<Rightarrow>
          (let actualChanges = map the (filter (\<lambda>change. change \<noteq> None) potentialChanges)
           in if length actualChanges > 0 then Some (transaction ed actualChanges)
              else Some ed))"

section \<open>The orchestrator\<close>

text \<open>
  What a run tells: a line on the developer console (\<open>console.warn\<close>,
  \<open>console.log\<close>) or a \<open>Notice\<close>, the host's pop-up message to the user. The
  \<open>console.log\<close> lines that only trace a run (the range parsed, the number of headers
  found, the changes applied) are left out: a run is modelled with the one message that
  ends it.
\<close>

datatype message = console_warn string | console_log string | Notice string

fun show_nat :: "nat \<Rightarrow> string" where
  "show_nat n =
     (if n < 10 then [char_of (48 + n)]
      else show_nat (n div 10) @ [char_of (48 + n mod 10)])"

declare show_nat.simps [simp del]

definition changed :: "HeaderObject \<Rightarrow> bool" where
  "changed h = (level h \<noteq> originalLevel h)"

definition processHeaderAdjustment ::
  "Editor \<Rightarrow> AdjustmentOperation \<Rightarrow> int \<Rightarrow> int option \<Rightarrow> int option \<Rightarrow> (Editor \<times> message) option" where
  "processHeaderAdjustment ed operation levels fromLine toLine =
     (let startLine = (case fromLine of None \<Rightarrow> 0 | Some f \<Rightarrow> f);
          endLine = (case toLine of None \<Rightarrow> lineCount ed - 1 | Some t \<Rightarrow> t)
      in if startLine > endLine then
           Some (ed, console_warn ''[Header Adjuster] Start line is after end line, skipping adjustment.'')
         else if levels = 0 then
           Some (ed, console_log ''[Header Adjuster] Adjustment level is 0, skipping.'')
         else if levels < 0 then
           Some (ed, console_warn ''[Header Adjuster] Adjustment level is negative, skipping.'')
         else
           (case parseHeaders ed startLine endLine of
              None \<Rightarrow> None
            | Some headersInRange \<Rightarrow>
                if length headersInRange = 0 then
                  Some (ed, Notice ''No headers found in the specified range/selection.'')
                else
                  (let hs = updateHeaderLevels headersInRange operation levels in
                   case applyHeaderChanges ed hs of
                     None \<Rightarrow> None
                   | Some ed' \<Rightarrow>
                       (let changedCount = length (filter changed hs) in
                        if changedCount > 0 then
                          Some (ed', Notice (''Adjusted '' @ show_nat changedCount @ '' header(s).''))
                        else
                          Some (ed', Notice ''No header levels needed adjustment in the range.'')))))"

section \<open>The earlier variant of the header utilities\<close>

text \<open>
  The repository holds a second copy of the header utilities. Its \<open>parseHeaders\<close> and
  \<open>updateHeaderLevels\<close> are the ones above, statement for statement. Its
  \<open>applyHeaderChanges\<close> starts the transaction also when no change is left, and its
  \<open>processHeaderAdjustment\<close> checks the range only, not the number of levels, and ends
  with one form of notice.
\<close>

definition applyHeaderChanges_001 :: "Editor \<Rightarrow> HeaderObject list \<Rightarrow> Editor option" where
  "applyHeaderChanges_001 ed hs =
     (let sortedHeaders = sort_descending hs in
      case those (map potential_change sortedHeaders) of
        None \<Rightarrow> None
      | Some potentialChanges \<Rightarrow>
          Some (transaction ed (map the (filter (\<lambda>change. change \<noteq> None) potentialChanges))))"

definition processHeaderAdjustment_001 ::
  "Editor \<Rightarrow> AdjustmentOperation \<Rightarrow> int \<Rightarrow> int option \<Rightarrow> int option \<Rightarrow> (Editor \<times> message) option" where
  "processHeaderAdjustment_001 ed operation levels fromLine toLine =
     (let startLine = (case fromLine of None \<Rightarrow> 0 | Some f \<Rightarrow> f);
          endLine = (case toLine of None \<Rightarrow> lineCount ed - 1 | Some t \<Rightarrow> t)
      in if startLine > endLine then
           Some (ed, console_warn ''[Header Adjuster] Start line is after end line, skipping adjustment.'')
         else
           (case parseHeaders ed startLine endLine of
              None \<Rightarrow> None
            | Some headersInRange \<Rightarrow>
                if length headersInRange = 0 then
                  Some (ed, Notice ''No headers found in the specified range/selection.'')
                else
                  (let hs = updateHeaderLevels headersInRange operation levels in
                   case applyHeaderChanges_001 ed hs of
                     None \<Rightarrow> None
                   | Some ed' \<Rightarrow>
                       Some (ed', Notice (''Adjusted '' @ show_nat (length (filter changed hs))
                                          @ '' header(s).'')))))"

section \<open>The first version of the plugin\<close>

text \<open>
  \<open>main.ts\<close> at the root of the repository is the plugin before the header utilities
  were split off. Its header objects have no original level and no content; its pattern
  \<open>/^(#{1,6})\s(.*)$/\<close> asks for one white space character; its line numbers
  \<open>startLine\<close> and \<open>endLine\<close> are one-based and optional.
\<close>

record LegacyHeader =
  lg_level :: int
  lg_lineNumber :: int
  lg_parent :: "nat option"
  lg_children :: "nat list"

definition headerPattern :: "string \<Rightarrow> (string \<times> string) option" where
  "headerPattern s =
     (let hashes = takeWhile (\<lambda>c. c = CHR ''#'') s;
          rest = dropWhile (\<lambda>c. c = CHR ''#'') s
      in if 1 \<le> length hashes \<and> length hashes \<le> 6 \<and> rest \<noteq> [] \<and> js_whitespace (hd rest)
            \<and> list_all (\<lambda>c. \<not> js_line_terminator c) (tl rest)
         then Some (hashes, tl rest) else None)"

text \<open>\<open>line.replace(/^(#{1,6})\s/, '')\<close>: the line without its hashes and the first
  white space character behind them, or the line itself when the pattern does not match.\<close>

definition strip_prefix :: "string \<Rightarrow> string" where
  "strip_prefix s =
     (let hashes = takeWhile (\<lambda>c. c = CHR ''#'') s;
          rest = dropWhile (\<lambda>c. c = CHR ''#'') s
      in if 1 \<le> length hashes \<and> length hashes \<le> 6 \<and> rest \<noteq> [] \<and> js_whitespace (hd rest)
         then tl rest else s)"

partial_function (option) lg_find_ancestor ::
  "LegacyHeader list \<Rightarrow> nat option \<Rightarrow> int \<Rightarrow> nat option option" where
  "lg_find_ancestor hs parent' currentLevel =
     (case parent' of
        None \<Rightarrow> Some None
      | Some p \<Rightarrow>
          if lg_level (hs ! p) \<ge> currentLevel
          then lg_find_ancestor hs (lg_parent (hs ! p)) currentLevel
          else Some (Some p))"

declare lg_find_ancestor.simps [code]

definition lg_push_child :: "LegacyHeader list \<Rightarrow> nat \<Rightarrow> nat \<Rightarrow> LegacyHeader list" where
  "lg_push_child hs p k = hs[p := (hs ! p)\<lparr>lg_children := lg_children (hs ! p) @ [k]\<rparr>]"

text \<open>The body of the \<open>for\<close> loop of \<open>createHeaderObjects\<close>; the state is the array
  \<open>headerObjects\<close> and \<open>lastHeader\<close>.\<close>

definition create_line ::
  "Editor \<Rightarrow> int option \<Rightarrow> int option \<Rightarrow> LegacyHeader list \<times> nat option \<Rightarrow> int
     \<Rightarrow> (LegacyHeader list \<times> nat option) option" where
  "create_line ed startLine endLine st i =
     (if (case startLine of None \<Rightarrow> False | Some s \<Rightarrow> i + 1 < s)
         \<or> (case endLine of None \<Rightarrow> False | Some e \<Rightarrow> i + 1 > e)
      then Some st
      else case headerPattern (getLine ed i) of
        None \<Rightarrow> Some st
      | Some (hashes, body) \<Rightarrow>
          (let headerObjects = fst st;
               currentLevel = int (length hashes);
               k = length headerObjects;
               newHeader = \<lparr>lg_level = currentLevel, lg_lineNumber = i + 1,
                            lg_parent = None, lg_children = []\<rparr>
           in case snd st of
                None \<Rightarrow> Some (headerObjects @ [newHeader], Some k)
              | Some l \<Rightarrow>
                  if currentLevel > lg_level (headerObjects ! l)
                  then Some (lg_push_child headerObjects l k @ [newHeader\<lparr>lg_parent := Some l\<rparr>], Some k)
                  else (case lg_find_ancestor headerObjects (lg_parent (headerObjects ! l)) currentLevel of
                          None \<Rightarrow> None
                        | Some parent' \<Rightarrow>
                            Some ((case parent' of
                                     None \<Rightarrow> headerObjects
                                   | Some p \<Rightarrow> lg_push_child headerObjects p k)
                                  @ [newHeader\<lparr>lg_parent := parent'\<rparr>], Some k))))"

fun create_loop ::
  "Editor \<Rightarrow> int option \<Rightarrow> int option \<Rightarrow> LegacyHeader list \<times> nat option \<Rightarrow> int list
     \<Rightarrow> (LegacyHeader list \<times> nat option) option" where
  "create_loop ed startLine endLine st [] = Some st"
| "create_loop ed startLine endLine st (i # is) =
     (case create_line ed startLine endLine st i of
        None \<Rightarrow> None
      | Some st' \<Rightarrow> create_loop ed startLine endLine st' is)"

definition createHeaderObjects :: "Editor \<Rightarrow> int option \<Rightarrow> int option \<Rightarrow> LegacyHeader list option" where
  "createHeaderObjects ed startLine endLine =
     map_option fst (create_loop ed startLine endLine ([], None) [0..lineCount ed - 1])"

definition lg_below_children :: "LegacyHeader list \<Rightarrow> nat list \<Rightarrow> int \<Rightarrow> int" where
  "lg_below_children hs cs newLevel =
     fold (\<lambda>c nl. if nl \<ge> lg_level (hs ! c) then lg_level (hs ! c) - 1 else nl) cs newLevel"

definition lg_update_header :: "AdjustmentOperation \<Rightarrow> int \<Rightarrow> nat \<Rightarrow> LegacyHeader list \<Rightarrow> LegacyHeader list" where
  "lg_update_header operation levels i hs =
     (let header = hs ! i in
      if operation = decrease then
        (let newLevel = lg_level header - levels;
             newLevel = (case lg_parent header of
                           None \<Rightarrow> newLevel
                         | Some p \<Rightarrow> if newLevel \<le> lg_level (hs ! p) then lg_level (hs ! p) + 1 else newLevel)
         in hs[i := header\<lparr>lg_level := max newLevel 1\<rparr>])
      else
        (let newLevel = lg_level header + levels;
             newLevel = lg_below_children hs (lg_children header) newLevel
         in hs[i := header\<lparr>lg_level := min newLevel 6\<rparr>]))"

text \<open>
  \<open>applyHeaderChanges\<close> of the first version replaces the whole line of every header,
  one \<open>editor.replaceRange\<close> after the other, in the order of the array.
\<close>

definition lg_apply_header :: "LegacyHeader \<Rightarrow> Editor \<Rightarrow> Editor option" where
  "lg_apply_header header ed =
     (let l = getLine ed (lg_lineNumber header - 1) in
      case js_repeat ''#'' (lg_level header) of
        None \<Rightarrow> None
      | Some hashes \<Rightarrow>
          Some (ed[nat (lg_lineNumber header - 1) :=
                     replace_in_line l 0 (int (length l)) (hashes @ '' '' @ strip_prefix l)]))"

fun lg_applyHeaderChanges :: "Editor \<Rightarrow> LegacyHeader list \<Rightarrow> Editor option" where
  "lg_applyHeaderChanges ed [] = Some ed"
| "lg_applyHeaderChanges ed (header # headerObjects) =
     (case lg_apply_header header ed of
        None \<Rightarrow> None
      | Some ed' \<Rightarrow> lg_applyHeaderChanges ed' headerObjects)"

text \<open>
  \<open>adjustHeaders\<close>, from the point where it has the editor. \<open>headerObjects.reverse()\<close>
  reverses the array in place for an increase; the objects, and so the positions that
  stand for them, stay, and the order of the two \<open>forEach\<close> loops is reversed.
\<close>

definition adjustHeaders ::
  "Editor \<Rightarrow> AdjustmentOperation \<Rightarrow> int \<Rightarrow> int option \<Rightarrow> int option \<Rightarrow> Editor option" where
  "adjustHeaders ed operation levels startLine endLine =
     (case createHeaderObjects ed startLine endLine of
        None \<Rightarrow> None
      | Some headerObjects \<Rightarrow>
          (let order = (if operation = increase then rev [0..<length headerObjects]
                        else [0..<length headerObjects]);
               updated = fold (lg_update_header operation levels) order headerObjects
           in lg_applyHeaderChanges ed (map (\<lambda>i. updated ! i) order)))"

section \<open>Properties of a forest of headers\<close>

text \<open>
  The position \<open>pc\<close> (or none) is the nearest of the headers \<open>hs\<close>, from the end,
  whose level is strictly smaller than \<open>cur\<close>.
\<close>

definition nearest_smaller :: "HeaderObject list \<Rightarrow> nat \<Rightarrow> int \<Rightarrow> nat option \<Rightarrow> bool" where
  "nearest_smaller hs k cur pc =
     (case pc of
        None \<Rightarrow> (\<forall>j<k. cur \<le> level (hs ! j))
      | Some p \<Rightarrow> p < k \<and> level (hs ! p) < cur \<and> (\<forall>j. p < j \<and> j < k \<longrightarrow> cur \<le> level (hs ! j)))"

text \<open>
  The parent of each header is the nearest header before it with a strictly smaller level.
\<close>

definition parent_nearest :: "HeaderObject list \<Rightarrow> bool" where
  "parent_nearest hs = (\<forall>i<length hs. nearest_smaller hs i (level (hs ! i)) (parent (hs ! i)))"

text \<open>
  The children list of each header holds exactly the headers that have it as their
  parent, each once, in document order.
\<close>

definition children_once :: "HeaderObject list \<Rightarrow> bool" where
  "children_once hs =
     (\<forall>p<length hs. children (hs ! p) = filter (\<lambda>c. parent (hs ! c) = Some p) [0..<length hs])"

definition levels_fresh :: "HeaderObject list \<Rightarrow> bool" where
  "levels_fresh hs =
     (\<forall>i<length hs. 1 \<le> level (hs ! i) \<and> level (hs ! i) \<le> 6 \<and> originalLevel (hs ! i) = level (hs ! i))"

definition forest_ok :: "HeaderObject list \<Rightarrow> bool" where
  "forest_ok hs = (parent_nearest hs \<and> children_once hs \<and> levels_fresh hs)"

definition parse_inv :: "ParseState \<Rightarrow> bool" where
  "parse_inv st =
     (forest_ok (headers st) \<and>
      lastHeader st = (if headers st = [] then None else Some (length (headers st) - 1)))"

text \<open>
  What one round of the parser's loop does to the array for a matching line: the new
  header, with its parent set, is pushed, and pushed on the children of its parent.
\<close>

definition attach :: "HeaderObject list \<Rightarrow> nat option \<Rightarrow> HeaderObject \<Rightarrow> HeaderObject list" where
  "attach hs pc nh =
     (case pc of None \<Rightarrow> hs | Some p \<Rightarrow> push_child hs p (length hs)) @ [nh\<lparr>parent := pc\<rparr>]"

text \<open>
  Each header stands for a line of the buffer between \<open>lo\<close> and \<open>hi\<close> that matches the
  header pattern, with the number of its hashes as original level; line numbers grow.
\<close>

definition header_of_line :: "Editor \<Rightarrow> int \<Rightarrow> int \<Rightarrow> HeaderObject \<Rightarrow> bool" where
  "header_of_line ed lo hi h =
     (lo \<le> lineNumber h - 1 \<and> lineNumber h - 1 \<le> hi \<and>
      HEADER_REGEX (getLine ed (lineNumber h - 1)) =
        Some (replicate (nat (originalLevel h)) CHR ''#'', content h))"

definition lines_ok :: "Editor \<Rightarrow> int \<Rightarrow> int \<Rightarrow> HeaderObject list \<Rightarrow> bool" where
  "lines_ok ed lo hi hs =
     (sorted_wrt (<) (map lineNumber hs) \<and> list_all (header_of_line ed lo hi) hs)"

text \<open>Two arrays of headers that differ in the levels only.\<close>

definition same_shape :: "HeaderObject list \<Rightarrow> HeaderObject list \<Rightarrow> bool" where
  "same_shape hs hs' =
     (length hs' = length hs \<and>
      (\<forall>i<length hs. originalLevel (hs' ! i) = originalLevel (hs ! i) \<and>
                      lineNumber (hs' ! i) = lineNumber (hs ! i) \<and>
                      content (hs' ! i) = content (hs ! i) \<and>
                      parent (hs' ! i) = parent (hs ! i) \<and>
                      children (hs' ! i) = children (hs ! i)))"

text \<open>The three conditions on adjusted levels.\<close>

definition above_parent :: "HeaderObject list \<Rightarrow> bool" where
  "above_parent hs =
     (\<forall>i<length hs. \<forall>p. parent (hs ! i) = Some p \<longrightarrow> level (hs ! p) < level (hs ! i))"

definition under_children :: "HeaderObject list \<Rightarrow> bool" where
  "under_children hs =
     (\<forall>i<length hs. \<forall>c\<in>set (children (hs ! i)). level (hs ! i) < level (hs ! c))"

definition levels_in_range :: "HeaderObject list \<Rightarrow> bool" where
  "levels_in_range hs = (\<forall>i<length hs. 1 \<le> level (hs ! i) \<and> level (hs ! i) \<le> 6)"

text \<open>
  A second run starts from the levels the first one left: the original level of each
  header is taken again from its level.
\<close>

definition resnapshot :: "HeaderObject list \<Rightarrow> HeaderObject list" where
  "resnapshot hs = map (\<lambda>h. h\<lparr>originalLevel := level h\<rparr>) hs"

text \<open>The change that the applier builds for a header whose level changed.\<close>

definition header_change :: "HeaderObject \<Rightarrow> EditorChange" where
  "header_change h =
     \<lparr>change_from = \<lparr>line = lineNumber h - 1, ch = 0\<rparr>,
      change_to = \<lparr>line = lineNumber h - 1, ch = originalLevel h\<rparr>,
      change_text = replicate (nat (level h)) CHR ''#'' @ '' ''\<rparr>"

text \<open>A \<open>Notice\<close> is shown to the user; the console is not.\<close>

fun user_facing :: "message \<Rightarrow> bool" where
  "user_facing (Notice t) = True"
| "user_facing (console_warn t) = False"
| "user_facing (console_log t) = False"

text \<open>
  A line whose leading run of hashes is longer than six, or is not followed by a white
  space character.
\<close>

definition no_header_line :: "string \<Rightarrow> bool" where
  "no_header_line s =
     (let n = length (takeWhile (\<lambda>c. c = CHR ''#'') s)
      in 6 < n \<or> \<not> (n < length s \<and> js_whitespace (s ! n)))"

text \<open>
  The line \<open>i\<close> of the buffer is the line of a header of the range whose adjusted
  level differs from its original level.
\<close>

definition changed_header_line ::
  "Editor \<Rightarrow> AdjustmentOperation \<Rightarrow> int \<Rightarrow> int \<Rightarrow> int \<Rightarrow> nat \<Rightarrow> bool" where
  "changed_header_line ed operation levels startLine endLine i =
     (case parseHeaders ed startLine endLine of
        None \<Rightarrow> False
      | Some hs \<Rightarrow>
          list_ex (\<lambda>h. changed h \<and> lineNumber h = int i + 1)
            (updateHeaderLevels hs operation levels))"

text \<open>The range of a run: the defaults of \<open>processHeaderAdjustment\<close> for its two optional
  arguments.\<close>

definition start_of :: "int option \<Rightarrow> int" where
  "start_of fromLine = (case fromLine of None \<Rightarrow> 0 | Some f \<Rightarrow> f)"

definition end_of :: "Editor \<Rightarrow> int option \<Rightarrow> int" where
  "end_of ed toLine = (case toLine of None \<Rightarrow> lineCount ed - 1 | Some t \<Rightarrow> t)"

text \<open>The line \<open>i\<close> (zero-based) lies within the optional one-based bounds of the first
  version.\<close>

definition lg_in_range :: "int option \<Rightarrow> int option \<Rightarrow> int \<Rightarrow> bool" where
  "lg_in_range startLine endLine i =
     (\<not> ((case startLine of None \<Rightarrow> False | Some s \<Rightarrow> i + 1 < s)
         \<or> (case endLine of None \<Rightarrow> False | Some e \<Rightarrow> i + 1 > e)))"

section \<open>The header pattern and the ancestor walk\<close>

lemma HEADER_REGEX_Some:
  assumes "HEADER_REGEX s = Some (h, b)"
  shows "1 \<le> length h" "length h \<le> 6" "h = replicate (length h) CHR ''#''"
    "h = takeWhile (\<lambda>c. c = CHR ''#'') s"
    "b = dropWhile js_whitespace (dropWhile (\<lambda>c. c = CHR ''#'') s)"
    "takeWhile js_whitespace (dropWhile (\<lambda>c. c = CHR ''#'') s) \<noteq> []"
proof -
  from assms have *: "h = takeWhile (\<lambda>c. c = CHR ''#'') s" "1 \<le> length h" "length h \<le> 6"
    "b = dropWhile js_whitespace (dropWhile (\<lambda>c. c = CHR ''#'') s)"
    "takeWhile js_whitespace (dropWhile (\<lambda>c. c = CHR ''#'') s) \<noteq> []"
    by (auto simp: HEADER_REGEX_def Let_def split: if_splits)
  show "1 \<le> length h" "length h \<le> 6" "h = takeWhile (\<lambda>c. c = CHR ''#'') s"
    "b = dropWhile js_whitespace (dropWhile (\<lambda>c. c = CHR ''#'') s)"
    "takeWhile js_whitespace (dropWhile (\<lambda>c. c = CHR ''#'') s) \<noteq> []"
    using * by auto
  have "\<forall>c\<in>set h. c = CHR ''#''" unfolding *(1) by (auto dest: set_takeWhileD)
  then show "h = replicate (length h) CHR ''#''"
    by (simp add: replicate_length_same)
qed

lemma find_ancestor_nearest:
  assumes P: "parent_nearest hs" and k: "k \<le> length hs"
    and q: "case q of None \<Rightarrow> True | Some p \<Rightarrow> p < k"
    and above: "\<forall>j<k. (case q of None \<Rightarrow> True | Some p \<Rightarrow> p < j) \<longrightarrow> cur \<le> level (hs ! j)"
  shows "\<exists>r. find_ancestor hs q cur = Some r \<and> nearest_smaller hs k cur r"
  using q above
proof (induction "case q of None \<Rightarrow> 0 | Some p \<Rightarrow> Suc p" arbitrary: q rule: less_induct)
  case less
  show ?case
  proof (cases q)
    case None
    with less.prems show ?thesis
      by (subst find_ancestor.simps) (simp add: nearest_smaller_def)
  next
    case (Some p)
    with less.prems have pk: "p < k" by simp
    show ?thesis
    proof (cases "cur \<le> level (hs ! p)")
      case False
      with Some pk less.prems show ?thesis
        by (subst find_ancestor.simps) (simp add: nearest_smaller_def)
    next
      case True
      from P pk k have np: "nearest_smaller hs p (level (hs ! p)) (parent (hs ! p))"
        by (simp add: parent_nearest_def)
      let ?q' = "parent (hs ! p)"
      have m: "(case ?q' of None \<Rightarrow> 0 | Some p' \<Rightarrow> Suc p') < (case q of None \<Rightarrow> 0 | Some p \<Rightarrow> Suc p)"
        using np Some by (auto simp: nearest_smaller_def split: option.splits)
      have q': "case ?q' of None \<Rightarrow> True | Some p' \<Rightarrow> p' < k"
        using np pk by (auto simp: nearest_smaller_def split: option.splits)
      have ab: "\<forall>j<k. (case ?q' of None \<Rightarrow> True | Some p' \<Rightarrow> p' < j) \<longrightarrow> cur \<le> level (hs ! j)"
      proof (intro allI impI)
        fix j assume j: "j < k" and c: "case ?q' of None \<Rightarrow> True | Some p' \<Rightarrow> p' < j"
        consider "j < p" | "j = p" | "p < j" by linarith
        then show "cur \<le> level (hs ! j)"
        proof cases
          case 1
          with np c have "level (hs ! p) \<le> level (hs ! j)"
            by (auto simp: nearest_smaller_def split: option.splits)
          with True show ?thesis by simp
        next
          case 2 with True show ?thesis by simp
        next
          case 3 with less.prems(2) Some j show ?thesis by simp
        qed
      qed
      from less.hyps[OF m q' ab] True Some show ?thesis
        by (subst find_ancestor.simps) simp
    qed
  qed
qed

section \<open>Pushing a header keeps the forest\<close>

lemma length_push_child [simp]: "length (push_child hs p k) = length hs"
  by (simp add: push_child_def)

lemma length_attach [simp]: "length (attach hs pc nh) = Suc (length hs)"
  by (simp add: attach_def split: option.splits)

lemma nth_push_child_fields:
  assumes "i < length hs"
  shows "level (push_child hs p k ! i) = level (hs ! i)"
    "originalLevel (push_child hs p k ! i) = originalLevel (hs ! i)"
    "lineNumber (push_child hs p k ! i) = lineNumber (hs ! i)"
    "content (push_child hs p k ! i) = content (hs ! i)"
    "parent (push_child hs p k ! i) = parent (hs ! i)"
    "children (push_child hs p k ! i) = (if i = p then children (hs ! i) @ [k] else children (hs ! i))"
  using assms by (cases "p < length hs"; auto simp: push_child_def nth_list_update)+

lemma nth_attach_old:
  assumes "i < length hs"
  shows "level (attach hs pc nh ! i) = level (hs ! i)"
    "originalLevel (attach hs pc nh ! i) = originalLevel (hs ! i)"
    "lineNumber (attach hs pc nh ! i) = lineNumber (hs ! i)"
    "content (attach hs pc nh ! i) = content (hs ! i)"
    "parent (attach hs pc nh ! i) = parent (hs ! i)"
    "children (attach hs pc nh ! i) =
       (if pc = Some i then children (hs ! i) @ [length hs] else children (hs ! i))"
  using assms by (auto simp: attach_def nth_append nth_push_child_fields split: option.splits)

lemma nth_attach_new: "attach hs pc nh ! length hs = nh\<lparr>parent := pc\<rparr>"
  by (simp add: attach_def nth_append split: option.splits)

lemma nearest_smaller_attach:
  assumes "k \<le> length hs"
  shows "nearest_smaller (attach hs pc nh) k cur r = nearest_smaller hs k cur r"
  using assms by (auto simp: nearest_smaller_def nth_attach_old split: option.splits)

lemma parent_nearest_attach:
  assumes P: "parent_nearest hs" and n: "nearest_smaller hs (length hs) (level nh) pc"
  shows "parent_nearest (attach hs pc nh)"
  unfolding parent_nearest_def
proof (intro allI impI)
  fix i assume "i < length (attach hs pc nh)"
  then consider "i < length hs" | "i = length hs" by fastforce
  then show "nearest_smaller (attach hs pc nh) i (level (attach hs pc nh ! i)) (parent (attach hs pc nh ! i))"
  proof cases
    case 1
    with P show ?thesis
      by (simp add: nearest_smaller_attach nth_attach_old parent_nearest_def)
  next
    case 2
    with n show ?thesis
      by (simp add: nearest_smaller_attach nth_attach_new)
  qed
qed

lemma parent_less:
  assumes "parent_nearest hs" "i < length hs" "parent (hs ! i) = Some p"
  shows "p < i" "level (hs ! p) < level (hs ! i)"
  using assms by (auto simp: parent_nearest_def nearest_smaller_def split: option.splits)

lemma children_once_attach:
  assumes P: "parent_nearest hs" and C: "children_once hs"
    and n: "nearest_smaller hs (length hs) (level nh) pc" and ch: "children nh = []"
  shows "children_once (attach hs pc nh)"
  unfolding children_once_def
proof (intro allI impI)
  let ?hs = "attach hs pc nh"
  fix p assume "p < length ?hs"
  then consider "p < length hs" | "p = length hs" by fastforce
  then show "children (?hs ! p) = filter (\<lambda>c. parent (?hs ! c) = Some p) [0..<length ?hs]"
  proof cases
    case 1
    have "filter (\<lambda>c. parent (?hs ! c) = Some p) [0..<length hs]
        = filter (\<lambda>c. parent (hs ! c) = Some p) [0..<length hs]"
      by (rule filter_cong) (auto simp: nth_attach_old)
    with 1 C show ?thesis
      by (auto simp: nth_attach_old nth_attach_new children_once_def)
  next
    case 2
    have "\<And>c. c < Suc (length hs) \<Longrightarrow> parent (?hs ! c) \<noteq> Some (length hs)"
    proof -
      fix c assume c: "c < Suc (length hs)"
      from parent_nearest_attach[OF P n] c
      show "parent (?hs ! c) \<noteq> Some (length hs)"
        using parent_less(1)[of ?hs c "length hs"] by auto
    qed
    then have "filter (\<lambda>c. parent (?hs ! c) = Some (length hs)) [0..<Suc (length hs)] = []"
      by (auto simp: filter_empty_conv simp del: upt_Suc)
    with 2 ch show ?thesis by (simp add: nth_attach_new del: upt_Suc)
  qed
qed

lemma levels_fresh_attach:
  assumes "levels_fresh hs" "1 \<le> level nh" "level nh \<le> 6" "originalLevel nh = level nh"
  shows "levels_fresh (attach hs pc nh)"
  unfolding levels_fresh_def
proof (intro allI impI)
  let ?hs = "attach hs pc nh"
  fix i assume "i < length ?hs"
  then consider "i < length hs" | "i = length hs" by fastforce
  then show "1 \<le> level (?hs ! i) \<and> level (?hs ! i) \<le> 6 \<and> originalLevel (?hs ! i) = level (?hs ! i)"
    using assms by cases (auto simp: nth_attach_old nth_attach_new levels_fresh_def)
qed

lemma forest_ok_attach:
  assumes "forest_ok hs" "nearest_smaller hs (length hs) lv pc" "1 \<le> lv" "lv \<le> 6"
  shows "forest_ok (attach hs pc (new_HeaderObject lv ln b None))"
  using assms unfolding forest_ok_def
  by (auto intro!: parent_nearest_attach children_once_attach levels_fresh_attach
      simp: new_HeaderObject_def)

section \<open>The parser returns, with a forest\<close>

lemma attach_None_new: "attach hs None (new_HeaderObject lv ln b None) = hs @ [new_HeaderObject lv ln b None]"
  by (simp add: attach_def new_HeaderObject_def)

lemma parse_line_no_match:
  "HEADER_REGEX (getLine ed i) = None \<Longrightarrow> parse_line ed st i = Some st"
  by (simp add: parse_line_def)

lemma parse_line_match:
  assumes inv: "parse_inv st" and m: "HEADER_REGEX (getLine ed i) = Some (h, b)"
  shows "\<exists>pc. parse_line ed st i =
            Some \<lparr>headers = attach (headers st) pc (new_HeaderObject (int (length h)) (i + 1) b None),
                  lastHeader = Some (length (headers st))\<rparr>
          \<and> nearest_smaller (headers st) (length (headers st)) (int (length h)) pc"
proof (cases "headers st = []")
  case True
  with inv have "lastHeader st = None" by (simp add: parse_inv_def)
  with True m show ?thesis
    by (intro exI[of _ None]) (simp add: parse_line_def attach_None_new nearest_smaller_def)
next
  case False
  let ?hs = "headers st" and ?cur = "int (length h)"
  let ?l = "length ?hs - 1"
  from False inv have last: "lastHeader st = Some ?l" and l: "?l < length ?hs"
    and P: "parent_nearest ?hs"
    by (auto simp: parse_inv_def forest_ok_def)
  show ?thesis
  proof (cases "?cur > level (?hs ! ?l)")
    case True
    have "nearest_smaller ?hs (length ?hs) ?cur (Some ?l)"
      using True l by (auto simp: nearest_smaller_def)
    with True last m show ?thesis
      by (intro exI[of _ "Some ?l"]) (simp add: parse_line_def attach_def new_HeaderObject_def Let_def)
  next
    case Fls: False
    from P l have np: "nearest_smaller ?hs ?l (level (?hs ! ?l)) (parent (?hs ! ?l))"
      by (simp add: parent_nearest_def)
    have q: "case parent (?hs ! ?l) of None \<Rightarrow> True | Some p \<Rightarrow> p < length ?hs"
      using np l by (auto simp: nearest_smaller_def split: option.splits)
    have ab: "\<forall>j<length ?hs. (case parent (?hs ! ?l) of None \<Rightarrow> True | Some p \<Rightarrow> p < j)
                \<longrightarrow> ?cur \<le> level (?hs ! j)"
    proof (intro allI impI)
      fix j assume j: "j < length ?hs" and c: "case parent (?hs ! ?l) of None \<Rightarrow> True | Some p \<Rightarrow> p < j"
      consider "j < ?l" | "j = ?l" using j by linarith
      then show "?cur \<le> level (?hs ! j)"
      proof cases
        case 1
        with np c have "level (?hs ! ?l) \<le> level (?hs ! j)"
          by (auto simp: nearest_smaller_def split: option.splits)
        with Fls show ?thesis by simp
      next
        case 2 with Fls show ?thesis by simp
      qed
    qed
    from find_ancestor_nearest[OF P le_refl q ab]
    obtain r where r: "find_ancestor ?hs (parent (?hs ! ?l)) ?cur = Some r"
      "nearest_smaller ?hs (length ?hs) ?cur r" by blast
    with Fls last m show ?thesis
      by (intro exI[of _ r]) (simp add: parse_line_def attach_def new_HeaderObject_def Let_def)
  qed
qed

lemma parse_line_inv:
  assumes inv: "parse_inv st"
  shows "\<exists>st'. parse_line ed st i = Some st' \<and> parse_inv st'"
proof (cases "HEADER_REGEX (getLine ed i)")
  case None
  with inv show ?thesis by (simp add: parse_line_no_match)
next
  case (Some hb)
  obtain h b where hb: "hb = (h, b)" by (cases hb)
  from parse_line_match[OF inv Some[unfolded hb]] obtain pc where
    pl: "parse_line ed st i =
            Some \<lparr>headers = attach (headers st) pc (new_HeaderObject (int (length h)) (i + 1) b None),
                  lastHeader = Some (length (headers st))\<rparr>"
    and n: "nearest_smaller (headers st) (length (headers st)) (int (length h)) pc" by blast
  from HEADER_REGEX_Some(1,2)[OF Some[unfolded hb]] have "1 \<le> int (length h)" "int (length h) \<le> 6"
    by auto
  with inv n have "forest_ok (attach (headers st) pc (new_HeaderObject (int (length h)) (i + 1) b None))"
    by (auto intro: forest_ok_attach simp: parse_inv_def)
  then show ?thesis unfolding pl
    by (simp add: parse_inv_def attach_def split: option.splits)
qed

lemma parse_loop_inv:
  "parse_inv st \<Longrightarrow> \<exists>st'. parse_loop ed st is = Some st' \<and> parse_inv st'"
proof (induction "is" arbitrary: st)
  case Nil
  then show ?case by simp
next
  case (Cons i "is")
  from parse_line_inv[OF Cons.prems] obtain st1 where
    "parse_line ed st i = Some st1" "parse_inv st1" by blast
  with Cons.IH[of st1] show ?case by simp
qed

lemma parse_inv_init: "parse_inv \<lparr>headers = [], lastHeader = None\<rparr>"
  by (simp add: parse_inv_def forest_ok_def parent_nearest_def children_once_def levels_fresh_def)

lemma parseHeaders_forest:
  "\<exists>hs. parseHeaders ed fromLine toLine = Some hs \<and> forest_ok hs"
  using parse_loop_inv[OF parse_inv_init, of ed "[max 0 fromLine..min (lineCount ed - 1) toLine]"]
  by (auto simp: parseHeaders_def Let_def parse_inv_def)

section \<open>The headers are lines of the range\<close>

lemma map_lineNumber_attach:
  "map lineNumber (attach hs pc nh) = map lineNumber hs @ [lineNumber nh]"
proof (rule nth_equalityI)
  show "length (map lineNumber (attach hs pc nh)) = length (map lineNumber hs @ [lineNumber nh])"
    by simp
next
  fix i assume "i < length (map lineNumber (attach hs pc nh))"
  then consider "i < length hs" | "i = length hs" by fastforce
  then show "map lineNumber (attach hs pc nh) ! i = (map lineNumber hs @ [lineNumber nh]) ! i"
    by cases (simp_all add: nth_append nth_attach_old nth_attach_new)
qed

lemma header_of_line_cong:
  "lineNumber h' = lineNumber h \<Longrightarrow> originalLevel h' = originalLevel h \<Longrightarrow> content h' = content h
   \<Longrightarrow> header_of_line ed lo hi h' = header_of_line ed lo hi h"
  by (simp add: header_of_line_def)

lemma lines_ok_attach:
  assumes ok: "lines_ok ed lo hi hs"
    and m: "HEADER_REGEX (getLine ed i) = Some (h, b)"
    and i: "lo \<le> i" "i \<le> hi"
    and before: "\<forall>j<length hs. lineNumber (hs ! j) \<le> i"
  shows "lines_ok ed lo hi (attach hs pc (new_HeaderObject (int (length h)) (i + 1) b None))"
proof -
  let ?nh = "new_HeaderObject (int (length h)) (i + 1) b None"
  let ?hs = "attach hs pc ?nh"
  have s: "sorted_wrt (<) (map lineNumber ?hs)"
    using ok before
    by (auto simp: map_lineNumber_attach sorted_wrt_append lines_ok_def new_HeaderObject_def
        in_set_conv_nth)
  have "header_of_line ed lo hi (?hs ! j)" if "j < length ?hs" for j
  proof -
    from that consider "j < length hs" | "j = length hs" by fastforce
    then show ?thesis
    proof cases
      case 1
      with ok have "header_of_line ed lo hi (hs ! j)"
        by (simp add: lines_ok_def list_all_length)
      with 1 show ?thesis
        by (simp add: header_of_line_cong[of "?hs ! j" "hs ! j"] nth_attach_old)
    next
      case 2
      from HEADER_REGEX_Some(3)[OF m] m i show ?thesis
        unfolding 2 nth_attach_new
        by (simp add: header_of_line_def new_HeaderObject_def)
    qed
  qed
  with s show ?thesis by (simp add: lines_ok_def list_all_length)
qed

lemma parse_line_lines:
  assumes inv: "parse_inv st" and ok: "lines_ok ed lo hi (headers st)"
    and i: "lo \<le> i" "i \<le> hi"
    and before: "\<forall>j<length (headers st). lineNumber (headers st ! j) \<le> i"
    and pl: "parse_line ed st i = Some st'"
  shows "lines_ok ed lo hi (headers st') \<and> (\<forall>j<length (headers st'). lineNumber (headers st' ! j) \<le> i + 1)"
proof (cases "HEADER_REGEX (getLine ed i)")
  case None
  with pl have "st' = st" by (simp add: parse_line_no_match)
  with ok before show ?thesis by fastforce
next
  case (Some hb)
  obtain h b where hb: "hb = (h, b)" by (cases hb)
  from parse_line_match[OF inv Some[unfolded hb]] pl obtain pc where
    st': "st' = \<lparr>headers = attach (headers st) pc (new_HeaderObject (int (length h)) (i + 1) b None),
                  lastHeader = Some (length (headers st))\<rparr>" by auto
  have "lineNumber (headers st' ! j) \<le> i + 1" if "j < length (headers st')" for j
  proof -
    from that consider "j < length (headers st)" | "j = length (headers st)"
      unfolding st' by fastforce
    then show ?thesis
      using before unfolding st'
      by cases (auto simp: nth_attach_old nth_attach_new new_HeaderObject_def intro: order_trans)
  qed
  with lines_ok_attach[OF ok Some[unfolded hb] i before, of pc] show ?thesis
    unfolding st' by simp
qed

lemma parse_loop_lines:
  assumes "parse_inv st" "lines_ok ed lo hi (headers st)"
    "sorted_wrt (<) is" "\<forall>i\<in>set is. lo \<le> i \<and> i \<le> hi"
    "\<forall>j<length (headers st). \<forall>i\<in>set is. lineNumber (headers st ! j) \<le> i"
    "parse_loop ed st is = Some st'"
  shows "lines_ok ed lo hi (headers st')"
  using assms
proof (induction "is" arbitrary: st)
  case Nil
  then show ?case by simp
next
  case (Cons i "is")
  from parse_line_inv[OF Cons.prems(1)] obtain st1 where
    st1: "parse_line ed st i = Some st1" "parse_inv st1" by blast
  from Cons.prems have i: "lo \<le> i" "i \<le> hi"
    and b: "\<forall>j<length (headers st). lineNumber (headers st ! j) \<le> i" by auto
  from parse_line_lines[OF Cons.prems(1,2) i b st1(1)]
  have ok1: "lines_ok ed lo hi (headers st1)"
    and b1: "\<forall>j<length (headers st1). lineNumber (headers st1 ! j) \<le> i + 1" by auto
  from Cons.prems(3) have "\<forall>i'\<in>set is. i + 1 \<le> i'" by auto
  with b1 have b1': "\<forall>j<length (headers st1). \<forall>i'\<in>set is. lineNumber (headers st1 ! j) \<le> i'"
    by (meson order_trans)
  from Cons.prems st1 have "parse_loop ed st1 is = Some st'" by simp
  with Cons.IH[OF st1(2) ok1 _ _ b1'] Cons.prems show ?case by auto
qed

lemma parseHeaders_lines:
  assumes "parseHeaders ed fromLine toLine = Some hs"
  shows "lines_ok ed (max 0 fromLine) (min (lineCount ed - 1) toLine) hs"
proof -
  let ?lo = "max 0 fromLine" and ?hi = "min (lineCount ed - 1) toLine"
  from assms obtain st' where
    st': "parse_loop ed \<lparr>headers = [], lastHeader = None\<rparr> [?lo..?hi] = Some st'" "hs = headers st'"
    by (auto simp: parseHeaders_def Let_def)
  have "lines_ok ed ?lo ?hi (headers st')"
    by (rule parse_loop_lines[OF parse_inv_init _ _ _ _ st'(1)])
      (auto simp: lines_ok_def sorted_wrt_upto)
  with st' show ?thesis by simp
qed

section \<open>The adjuster reaches stable levels\<close>

subsection \<open>One step of the adjuster\<close>

lemma length_update_header [simp]: "length (update_header operation m i hs) = length hs"
  by (simp add: update_header_def)

lemma nth_update_header_other:
  "j \<noteq> i \<Longrightarrow> update_header operation m i hs ! j = hs ! j"
  by (simp add: update_header_def)

lemma nth_update_header_same:
  "i < length hs \<Longrightarrow>
     update_header operation m i hs ! i = (hs ! i)\<lparr>level := new_level operation m hs (hs ! i)\<rparr>"
  by (simp add: update_header_def)

lemma same_shape_refl: "same_shape hs hs"
  by (simp add: same_shape_def)

lemma same_shape_trans: "same_shape a b \<Longrightarrow> same_shape b c \<Longrightarrow> same_shape a c"
  by (simp add: same_shape_def)

lemma same_shape_update_header: "same_shape hs (update_header operation m i hs)"
  unfolding same_shape_def
proof (intro conjI allI impI)
  fix j assume "j < length hs"
  then have *: "update_header operation m i hs ! j = hs ! j \<or>
    update_header operation m i hs ! j = (hs ! j)\<lparr>level := new_level operation m hs (hs ! j)\<rparr>"
    by (cases "j = i") (simp_all add: nth_update_header_other nth_update_header_same)
  from * show "originalLevel (update_header operation m i hs ! j) = originalLevel (hs ! j)" by auto
  from * show "lineNumber (update_header operation m i hs ! j) = lineNumber (hs ! j)" by auto
  from * show "content (update_header operation m i hs ! j) = content (hs ! j)" by auto
  from * show "parent (update_header operation m i hs ! j) = parent (hs ! j)" by auto
  from * show "children (update_header operation m i hs ! j) = children (hs ! j)" by auto
qed simp

lemma same_shape_fold_update:
  "same_shape hs (fold (update_header operation m) is hs)"
proof (induction "is" arbitrary: hs)
  case Nil
  show ?case by (simp add: same_shape_refl)
next
  case (Cons i "is")
  from same_shape_trans[OF same_shape_update_header Cons.IH] show ?case by simp
qed

subsection \<open>What a new level depends on\<close>

lemma below_children_cong:
  "\<forall>c\<in>set cs. level (hs' ! c) = level (hs ! c) \<Longrightarrow> below_children hs' cs nl = below_children hs cs nl"
  unfolding below_children_def by (rule fold_cong) auto

lemma new_level_decrease_cong:
  assumes "originalLevel h' = originalLevel h" "parent h' = parent h"
    "\<forall>p. parent h = Some p \<longrightarrow> level (hs' ! p) = level (hs ! p)"
  shows "new_level decrease m hs' h' = new_level decrease m hs h"
  using assms by (simp add: new_level_def Let_def split: option.splits)

lemma new_level_increase_cong:
  assumes "originalLevel h' = originalLevel h" "children h' = children h"
    "\<forall>c\<in>set (children h). level (hs' ! c) = level (hs ! c)"
  shows "new_level increase m hs' h' = new_level increase m hs h"
proof -
  from assms(3) have "below_children hs' (children h) (min 6 (originalLevel h + m)) =
      below_children hs (children h) (min 6 (originalLevel h + m))"
    by (rule below_children_cong)
  with assms(1,2) show ?thesis by (simp add: new_level_def Let_def)
qed

subsection \<open>The adjusted levels are stable\<close>

lemma decrease_fold_stable:
  assumes pl: "\<forall>i<length hs. \<forall>p. parent (hs ! i) = Some p \<longrightarrow> p < i" and k: "k \<le> length hs"
  shows "\<forall>j<k. level (fold (update_header decrease m) [0..<k] hs ! j) =
            new_level decrease m (fold (update_header decrease m) [0..<k] hs)
              (fold (update_header decrease m) [0..<k] hs ! j)"
  using k
proof (induction k)
  case 0
  show ?case by simp
next
  case (Suc k)
  let ?a = "fold (update_header decrease m) [0..<k] hs"
  let ?b = "update_header decrease m k ?a"
  have ab: "fold (update_header decrease m) [0..<Suc k] hs = ?b" by simp
  have sh: "same_shape hs ?a" by (rule same_shape_fold_update)
  have shb: "same_shape hs ?b" unfolding ab[symmetric] by (rule same_shape_fold_update)
  from Suc.prems have kl: "k < length hs" "k < length ?a" using sh by (auto simp: same_shape_def)
  have par: "\<And>j p. j \<le> k \<Longrightarrow> parent (?a ! j) = Some p \<Longrightarrow> level (?b ! p) = level (?a ! p)"
  proof -
    fix j p assume j: "j \<le> k" and p: "parent (?a ! j) = Some p"
    with sh kl have "parent (hs ! j) = Some p" by (simp add: same_shape_def)
    with pl j kl have "p < j" by auto
    with j show "level (?b ! p) = level (?a ! p)" by (simp add: nth_update_header_other)
  qed
  show ?case unfolding ab
  proof (intro allI impI)
    fix j assume "j < Suc k"
    then consider "j < k" | "j = k" by linarith
    then show "level (?b ! j) = new_level decrease m ?b (?b ! j)"
    proof cases
      case 1
      then have e: "?b ! j = ?a ! j" by (simp add: nth_update_header_other)
      from Suc.IH kl 1 have "level (?a ! j) = new_level decrease m ?a (?a ! j)" by simp
      also have "\<dots> = new_level decrease m ?b (?b ! j)"
        unfolding e using par[of j] 1
        by (intro new_level_decrease_cong[symmetric]) auto
      finally show ?thesis by (simp add: e)
    next
      case 2
      have "level (?b ! k) = new_level decrease m ?a (?a ! k)"
        using kl by (simp add: nth_update_header_same)
      also have "\<dots> = new_level decrease m ?b (?b ! k)"
        using par[of k] kl
        by (intro new_level_decrease_cong[symmetric]) (auto simp: nth_update_header_same)
      finally show ?thesis by (simp add: 2)
    qed
  qed
qed

lemma increase_fold_stable:
  assumes ch: "\<forall>i<length hs. \<forall>c\<in>set (children (hs ! i)). i < c"
    and d: "d \<le> length hs"
  shows "\<forall>j. length hs - d \<le> j \<and> j < length hs \<longrightarrow>
           level (fold (update_header increase m) (rev [length hs - d..<length hs]) hs ! j) =
            new_level increase m (fold (update_header increase m) (rev [length hs - d..<length hs]) hs)
              (fold (update_header increase m) (rev [length hs - d..<length hs]) hs ! j)"
  using d
proof (induction d)
  case 0
  show ?case by simp
next
  case (Suc d)
  let ?n = "length hs"
  let ?k = "?n - Suc d"
  let ?a = "fold (update_header increase m) (rev [?n - d..<?n]) hs"
  let ?b = "update_header increase m ?k ?a"
  from Suc.prems have k: "?k < ?n" "Suc ?k = ?n - d" by auto
  then have "[?k..<?n] = ?k # [?n - d..<?n]" by (simp add: upt_conv_Cons)
  then have ab: "fold (update_header increase m) (rev [?k..<?n]) hs = ?b" by simp
  have sh: "same_shape hs ?a" by (rule same_shape_fold_update)
  from k sh have kl: "?k < length ?a" by (simp add: same_shape_def)
  have chi: "\<And>j c. ?k \<le> j \<Longrightarrow> j < ?n \<Longrightarrow> c \<in> set (children (?a ! j)) \<Longrightarrow> level (?b ! c) = level (?a ! c)"
  proof -
    fix j c assume j: "?k \<le> j" "j < ?n" and c: "c \<in> set (children (?a ! j))"
    with sh have "c \<in> set (children (hs ! j))" by (simp add: same_shape_def)
    with ch j have "j < c" by auto
    with j show "level (?b ! c) = level (?a ! c)" by (simp add: nth_update_header_other)
  qed
  show ?case unfolding ab
  proof (intro allI impI)
    fix j assume "?k \<le> j \<and> j < ?n"
    then consider "?n - d \<le> j" "j < ?n" "j \<noteq> ?k" | "j = ?k" using k by linarith
    then show "level (?b ! j) = new_level increase m ?b (?b ! j)"
    proof cases
      case 1
      then have e: "?b ! j = ?a ! j" by (simp add: nth_update_header_other)
      from Suc.IH Suc.prems 1 have "level (?a ! j) = new_level increase m ?a (?a ! j)" by simp
      also have "\<dots> = new_level increase m ?b (?b ! j)"
        unfolding e using chi[of j] 1
        by (intro new_level_increase_cong[symmetric]) auto
      finally show ?thesis by (simp add: e)
    next
      case 2
      have "level (?b ! ?k) = new_level increase m ?a (?a ! ?k)"
        using kl by (simp add: nth_update_header_same)
      also have "\<dots> = new_level increase m ?b (?b ! ?k)"
        using chi[of ?k] kl k
        by (intro new_level_increase_cong[symmetric]) (auto simp: nth_update_header_same)
      finally show ?thesis by (simp add: 2)
    qed
  qed
qed

lemma same_shape_updateHeaderLevels: "same_shape hs (updateHeaderLevels hs operation m)"
  by (simp add: updateHeaderLevels_def same_shape_fold_update)

lemma updateHeaderLevels_stable:
  assumes pl: "\<forall>i<length hs. \<forall>p. parent (hs ! i) = Some p \<longrightarrow> p < i"
    and ch: "\<forall>i<length hs. \<forall>c\<in>set (children (hs ! i)). i < c"
    and j: "j < length hs"
  shows "level (updateHeaderLevels hs operation m ! j) =
           new_level operation m (updateHeaderLevels hs operation m) (updateHeaderLevels hs operation m ! j)"
proof (cases operation)
  case decrease
  with decrease_fold_stable[OF pl le_refl, of m] j show ?thesis
    by (simp add: updateHeaderLevels_def)
next
  case increase
  with increase_fold_stable[OF ch le_refl, of m] j show ?thesis
    by (simp add: updateHeaderLevels_def)
qed

lemma children_iff:
  assumes "children_once hs" "p < length hs"
  shows "c \<in> set (children (hs ! p)) \<longleftrightarrow> c < length hs \<and> parent (hs ! c) = Some p"
  using assms by (auto simp: children_once_def)

lemma forest_parent_before:
  assumes "forest_ok hs"
  shows "\<forall>i<length hs. \<forall>p. parent (hs ! i) = Some p \<longrightarrow> p < i"
  using assms parent_less(1) by (auto simp: forest_ok_def)

lemma forest_children_after:
  assumes "forest_ok hs"
  shows "\<forall>i<length hs. \<forall>c\<in>set (children (hs ! i)). i < c"
  using assms parent_less(1) by (auto simp: forest_ok_def children_iff)

lemma forest_original_nested:
  assumes "forest_ok hs" "i < length hs" "parent (hs ! i) = Some p"
  shows "p < i" "originalLevel (hs ! p) < originalLevel (hs ! i)"
proof -
  from assms show p: "p < i" using parent_less(1) by (auto simp: forest_ok_def)
  from assms have "level (hs ! p) < level (hs ! i)" using parent_less(2) by (auto simp: forest_ok_def)
  with assms p show "originalLevel (hs ! p) < originalLevel (hs ! i)"
    by (auto simp: forest_ok_def levels_fresh_def)
qed

lemma forest_original_range:
  assumes "forest_ok hs" "i < length hs"
  shows "1 \<le> originalLevel (hs ! i)" "originalLevel (hs ! i) \<le> 6"
  using assms by (auto simp: forest_ok_def levels_fresh_def)

subsection \<open>Decrease\<close>

lemma decrease_final:
  assumes f: "forest_ok hs" and sh: "same_shape hs hs'" and m: "0 < m"
    and st: "\<forall>j<length hs. level (hs' ! j) = new_level decrease m hs' (hs' ! j)"
    and j: "j < length hs"
  shows "1 \<le> level (hs' ! j) \<and> level (hs' ! j) \<le> originalLevel (hs ! j) \<and>
         (\<forall>p. parent (hs ! j) = Some p \<longrightarrow> level (hs' ! p) < level (hs' ! j))"
  using j
proof (induction j rule: less_induct)
  case (less j)
  from sh less.prems have o: "originalLevel (hs' ! j) = originalLevel (hs ! j)"
    and pa: "parent (hs' ! j) = parent (hs ! j)" by (auto simp: same_shape_def)
  from forest_original_range[OF f less.prems]
  have r: "1 \<le> originalLevel (hs ! j)" "originalLevel (hs ! j) \<le> 6" .
  from st less.prems have lv: "level (hs' ! j) = new_level decrease m hs' (hs' ! j)" by simp
  show ?case
  proof (cases "parent (hs ! j)")
    case None
    with lv o pa r m show ?thesis by (simp add: new_level_def Let_def)
  next
    case (Some p)
    from forest_original_nested[OF f less.prems Some]
    have p: "p < j" "originalLevel (hs ! p) < originalLevel (hs ! j)" .
    with less.IH[of p] less.prems have "level (hs' ! p) \<le> originalLevel (hs ! p)" by simp
    with p have "level (hs' ! p) < originalLevel (hs ! j)" by simp
    with lv o pa r m Some show ?thesis by (auto simp: new_level_def Let_def)
  qed
qed

subsection \<open>Increase\<close>

lemma below_children_le: "below_children hs cs nl \<le> nl"
  unfolding below_children_def
proof (induction cs arbitrary: nl)
  case Nil
  show ?case by simp
next
  case (Cons c cs)
  show ?case using Cons.IH[of "level (hs ! c) - 1"] Cons.IH[of nl] by auto
qed

lemma below_children_less: "c \<in> set cs \<Longrightarrow> below_children hs cs nl < level (hs ! c)"
proof (induction cs arbitrary: nl)
  case Nil
  then show ?case by simp
next
  case (Cons a cs)
  have step: "below_children hs (a # cs) nl =
      below_children hs cs (if nl \<ge> level (hs ! a) then level (hs ! a) - 1 else nl)"
    by (simp add: below_children_def)
  show ?case
  proof (cases "c \<in> set cs")
    case True
    with Cons.IH show ?thesis unfolding step by simp
  next
    case False
    with Cons.prems have ca: "c = a" by simp
    have "below_children hs cs (if nl \<ge> level (hs ! a) then level (hs ! a) - 1 else nl)
        \<le> (if nl \<ge> level (hs ! a) then level (hs ! a) - 1 else nl)"
      by (rule below_children_le)
    then show ?thesis unfolding step ca by (auto split: if_splits)
  qed
qed

lemma below_children_ge:
  "lb \<le> nl \<Longrightarrow> \<forall>c\<in>set cs. lb \<le> level (hs ! c) - 1 \<Longrightarrow> lb \<le> below_children hs cs nl"
proof (induction cs arbitrary: nl)
  case Nil
  then show ?case by (simp add: below_children_def)
next
  case (Cons a cs)
  have step: "below_children hs (a # cs) nl =
      below_children hs cs (if nl \<ge> level (hs ! a) then level (hs ! a) - 1 else nl)"
    by (simp add: below_children_def)
  from Cons.prems show ?case unfolding step by (intro Cons.IH) auto
qed

lemma increase_final:
  assumes f: "forest_ok hs" and sh: "same_shape hs hs'" and m: "0 < m"
    and st: "\<forall>j<length hs. level (hs' ! j) = new_level increase m hs' (hs' ! j)"
    and j: "j < length hs"
  shows "originalLevel (hs ! j) \<le> level (hs' ! j) \<and> level (hs' ! j) \<le> 6 \<and>
         (\<forall>c\<in>set (children (hs ! j)). level (hs' ! j) < level (hs' ! c))"
  using j
proof (induction "length hs - j" arbitrary: j rule: less_induct)
  case less
  from sh less.prems have o: "originalLevel (hs' ! j) = originalLevel (hs ! j)"
    and cj: "children (hs' ! j) = children (hs ! j)" by (auto simp: same_shape_def)
  from forest_original_range[OF f less.prems]
  have r: "1 \<le> originalLevel (hs ! j)" "originalLevel (hs ! j) \<le> 6" .
  let ?nl = "min 6 (originalLevel (hs ! j) + m)"
  let ?r = "below_children hs' (children (hs ! j)) ?nl"
  from st less.prems o cj have lv: "level (hs' ! j) = max 1 ?r"
    by (simp add: new_level_def Let_def)
  have "\<forall>c\<in>set (children (hs ! j)). originalLevel (hs ! j) \<le> level (hs' ! c) - 1"
  proof
    fix c assume c: "c \<in> set (children (hs ! j))"
    with f less.prems have cl: "c < length hs" and pc: "parent (hs ! c) = Some j"
      by (auto simp: forest_ok_def children_iff)
    from forest_original_nested[OF f cl pc]
    have jc: "j < c" "originalLevel (hs ! j) < originalLevel (hs ! c)" .
    with less.hyps[of c] cl less.prems have "originalLevel (hs ! c) \<le> level (hs' ! c)" by simp
    with jc show "originalLevel (hs ! j) \<le> level (hs' ! c) - 1" by simp
  qed
  with r m have ge: "originalLevel (hs ! j) \<le> ?r" by (intro below_children_ge) auto
  have le: "?r \<le> ?nl" by (rule below_children_le)
  from ge r have "max 1 ?r = ?r" by simp
  with lv have lv': "level (hs' ! j) = ?r" by simp
  from ge le below_children_less[of _ "children (hs ! j)" hs' ?nl] show ?case
    unfolding lv' by auto
qed

section \<open>The three-header document\<close>

lemma parse_abc:
  "parseHeaders (editor_of_text ''# A\<newline>## B\<newline>### C\<newline>'') 0 3 =
     Some [\<lparr>level = 1, originalLevel = 1, lineNumber = 1, content = ''A'', parent = None, children = [1]\<rparr>,
           \<lparr>level = 2, originalLevel = 2, lineNumber = 2, content = ''B'', parent = Some 0, children = [2]\<rparr>,
           \<lparr>level = 3, originalLevel = 3, lineNumber = 3, content = ''C'', parent = Some 1, children = []\<rparr>]"
  by code_simp

text \<open>
  C4. Parsing the document \<open># A / ## B / ### C\<close> and increasing by 10 processes the
  headers in reverse document order: first C, which is clamped to 6, then B, which is
  lowered below C to 5, then A, which is lowered below B to 4.
\<close>

theorem increase_10_bottom_up:
  "(case parseHeaders (editor_of_text ''# A\<newline>## B\<newline>### C\<newline>'') 0 3 of
      None \<Rightarrow> False
    | Some hs \<Rightarrow>
        map content hs = [''A'', ''B'', ''C''] \<and>
        updateHeaderLevels hs increase 10 =
          update_header increase 10 0 (update_header increase 10 1 (update_header increase 10 2 hs)) \<and>
        map level (update_header increase 10 2 hs) = [1, 2, 6] \<and>
        map level (update_header increase 10 1 (update_header increase 10 2 hs)) = [1, 5, 6] \<and>
        map level (updateHeaderLevels hs increase 10) = [4, 5, 6])"
  unfolding parse_abc by code_simp

section \<open>The adjusted levels\<close>

lemma parseHeaders_forest_ok:
  "parseHeaders ed fromLine toLine = Some hs \<Longrightarrow> forest_ok hs"
  using parseHeaders_forest[of ed fromLine toLine] by auto

lemma adjusted_facts:
  assumes f: "forest_ok hs" and m: "0 < m" and j: "j < length hs"
  shows "1 \<le> level (updateHeaderLevels hs operation m ! j)"
    "level (updateHeaderLevels hs operation m ! j) \<le> 6"
    "parent (hs ! j) = Some p \<Longrightarrow>
       level (updateHeaderLevels hs operation m ! p) < level (updateHeaderLevels hs operation m ! j)"
    "operation = decrease \<Longrightarrow> level (updateHeaderLevels hs operation m ! j) \<le> originalLevel (hs ! j)"
    "operation = increase \<Longrightarrow> originalLevel (hs ! j) \<le> level (updateHeaderLevels hs operation m ! j)"
proof -
  let ?hs = "updateHeaderLevels hs operation m"
  have sh: "same_shape hs ?hs" by (rule same_shape_updateHeaderLevels)
  have st: "\<forall>j<length hs. level (?hs ! j) = new_level operation m ?hs (?hs ! j)"
    using updateHeaderLevels_stable[OF forest_parent_before[OF f] forest_children_after[OF f]]
    by blast
  have r: "1 \<le> originalLevel (hs ! j)" "originalLevel (hs ! j) \<le> 6"
    using forest_original_range[OF f j] .
  have dec: "operation = decrease \<Longrightarrow> 1 \<le> level (?hs ! j) \<and> level (?hs ! j) \<le> originalLevel (hs ! j) \<and>
         (\<forall>p. parent (hs ! j) = Some p \<longrightarrow> level (?hs ! p) < level (?hs ! j))"
    using decrease_final[OF f _ m _ j, of "updateHeaderLevels hs decrease m"] sh st by simp
  have inc: "operation = increase \<Longrightarrow> \<forall>j<length hs. originalLevel (hs ! j) \<le> level (?hs ! j) \<and> level (?hs ! j) \<le> 6 \<and>
         (\<forall>c\<in>set (children (hs ! j)). level (?hs ! j) < level (?hs ! c))"
    using increase_final[OF f _ m, of "updateHeaderLevels hs increase m"] sh st by simp
  show "1 \<le> level (?hs ! j)"
    using dec inc r j by (cases operation) force+
  show "level (?hs ! j) \<le> 6"
    using dec inc r j by (cases operation) force+
  show "operation = decrease \<Longrightarrow> level (?hs ! j) \<le> originalLevel (hs ! j)" using dec by simp
  show "operation = increase \<Longrightarrow> originalLevel (hs ! j) \<le> level (?hs ! j)" using inc j by simp
  show "level (?hs ! p) < level (?hs ! j)" if pj: "parent (hs ! j) = Some p"
  proof (cases operation)
    case decrease
    with dec pj show ?thesis by simp
  next
    case increase
    from forest_original_nested(1)[OF f j pj] j have p: "p < length hs" by simp
    with f j pj have "j \<in> set (children (hs ! p))" by (simp add: forest_ok_def children_iff)
    with inc increase p show ?thesis by blast
  qed
qed

text \<open>
  C1. For the headers \<open>hs\<close> that the parser returns for a buffer and a line range, and
  a positive magnitude \<open>m\<close>, after \<open>updateHeaderLevels\<close> with either operation every
  header with a parent has a level strictly greater than its parent's, every header has a
  level strictly smaller than each of its children's, and every level lies between 1 and 6.
\<close>

theorem adjusted_levels_nested:
  assumes "parseHeaders ed fromLine toLine = Some hs" and "0 < m"
  shows "above_parent (updateHeaderLevels hs operation m) \<and>
         under_children (updateHeaderLevels hs operation m) \<and>
         levels_in_range (updateHeaderLevels hs operation m)"
proof -
  let ?hs = "updateHeaderLevels hs operation m"
  from assms(1) have f: "forest_ok hs" by (rule parseHeaders_forest_ok)
  have sh: "same_shape hs ?hs" by (rule same_shape_updateHeaderLevels)
  have "above_parent ?hs"
    unfolding above_parent_def using adjusted_facts(3)[OF f assms(2)] sh
    by (simp add: same_shape_def)
  moreover have "under_children ?hs"
    unfolding under_children_def
  proof (intro allI impI ballI)
    fix i c assume i: "i < length ?hs" and c: "c \<in> set (children (?hs ! i))"
    with sh have i': "i < length hs" and "c \<in> set (children (hs ! i))"
      by (auto simp: same_shape_def)
    with f have "c < length hs" "parent (hs ! c) = Some i"
      by (auto simp: forest_ok_def children_iff)
    with adjusted_facts(3)[OF f assms(2)] show "level (?hs ! i) < level (?hs ! c)" by simp
  qed
  moreover have "levels_in_range ?hs"
    unfolding levels_in_range_def using adjusted_facts(1,2)[OF f assms(2)] sh
    by (simp add: same_shape_def)
  ultimately show ?thesis by simp
qed

theorem adjusted_levels_nested_witness:
  "parseHeaders (editor_of_text ''# A\<newline>## B\<newline>### C\<newline>'') 0 3 \<noteq> None \<and> (0::int) < 10 \<and>
   above_parent (updateHeaderLevels (the (parseHeaders (editor_of_text ''# A\<newline>## B\<newline>### C\<newline>'') 0 3)) increase 10) \<and>
   under_children (updateHeaderLevels (the (parseHeaders (editor_of_text ''# A\<newline>## B\<newline>### C\<newline>'') 0 3)) increase 10) \<and>
   levels_in_range (updateHeaderLevels (the (parseHeaders (editor_of_text ''# A\<newline>## B\<newline>### C\<newline>'') 0 3)) increase 10) \<and>
   map level (updateHeaderLevels (the (parseHeaders (editor_of_text ''# A\<newline>## B\<newline>### C\<newline>'') 0 3)) increase 10) = [4, 5, 6]"
proof -
  have m: "(0::int) < 10" by simp
  have l: "map level (updateHeaderLevels (the (parseHeaders (editor_of_text ''# A\<newline>## B\<newline>### C\<newline>'') 0 3)) increase 10) = [4, 5, 6]"
    unfolding parse_abc by code_simp
  from adjusted_levels_nested[OF parse_abc m, of increase] l m show ?thesis
    unfolding parse_abc by simp
qed

text \<open>
  C9. For the headers that the parser returns and a positive magnitude, the increase
  operation never leaves a header below its original level, and the decrease operation
  never leaves it above its original level.
\<close>

theorem adjustment_monotone:
  assumes "parseHeaders ed fromLine toLine = Some hs" and "0 < m" and "i < length hs"
  shows "originalLevel (updateHeaderLevels hs increase m ! i) \<le> level (updateHeaderLevels hs increase m ! i) \<and>
         level (updateHeaderLevels hs decrease m ! i) \<le> originalLevel (updateHeaderLevels hs decrease m ! i)"
proof -
  from assms(1) have f: "forest_ok hs" by (rule parseHeaders_forest_ok)
  have "same_shape hs (updateHeaderLevels hs increase m)" "same_shape hs (updateHeaderLevels hs decrease m)"
    by (rule same_shape_updateHeaderLevels)+
  with assms(3) have "originalLevel (updateHeaderLevels hs increase m ! i) = originalLevel (hs ! i)"
    "originalLevel (updateHeaderLevels hs decrease m ! i) = originalLevel (hs ! i)"
    by (auto simp: same_shape_def)
  with adjusted_facts(4,5)[OF f assms(2,3)] show ?thesis by simp
qed

theorem adjustment_monotone_witness:
  "parseHeaders (editor_of_text ''# A\<newline>## B\<newline>### C\<newline>'') 0 3 \<noteq> None \<and> (0::int) < 10 \<and>
   (1::nat) < length (the (parseHeaders (editor_of_text ''# A\<newline>## B\<newline>### C\<newline>'') 0 3)) \<and>
   originalLevel (updateHeaderLevels (the (parseHeaders (editor_of_text ''# A\<newline>## B\<newline>### C\<newline>'') 0 3)) increase 10 ! 1)
     \<le> level (updateHeaderLevels (the (parseHeaders (editor_of_text ''# A\<newline>## B\<newline>### C\<newline>'') 0 3)) increase 10 ! 1) \<and>
   level (updateHeaderLevels (the (parseHeaders (editor_of_text ''# A\<newline>## B\<newline>### C\<newline>'') 0 3)) decrease 10 ! 1)
     \<le> originalLevel (updateHeaderLevels (the (parseHeaders (editor_of_text ''# A\<newline>## B\<newline>### C\<newline>'') 0 3)) decrease 10 ! 1) \<and>
   map level (updateHeaderLevels (the (parseHeaders (editor_of_text ''# A\<newline>## B\<newline>### C\<newline>'') 0 3)) decrease 10) = [1, 2, 3]"
proof -
  have m: "(0::int) < 10" by simp
  have n: "(1::nat) < length [\<lparr>level = 1, originalLevel = 1, lineNumber = 1, content = ''A'', parent = None, children = [1]\<rparr>,
           \<lparr>level = 2, originalLevel = 2, lineNumber = 2, content = ''B'', parent = Some 0, children = [2]\<rparr>,
           \<lparr>level = 3, originalLevel = 3, lineNumber = 3, content = ''C'', parent = Some 1, children = []\<rparr>]"
    by simp
  have l: "map level (updateHeaderLevels (the (parseHeaders (editor_of_text ''# A\<newline>## B\<newline>### C\<newline>'') 0 3)) decrease 10) = [1, 2, 3]"
    unfolding parse_abc by code_simp
  from adjustment_monotone[OF parse_abc m n] l m n show ?thesis
    unfolding parse_abc by simp
qed

section \<open>Increase, then decrease\<close>

lemma resnapshot_nth:
  "i < length hs \<Longrightarrow> resnapshot hs ! i = (hs ! i)\<lparr>originalLevel := level (hs ! i)\<rparr>"
  by (simp add: resnapshot_def)

text \<open>
  C6. For the headers that the parser returns and a positive magnitude \<open>m\<close>: if the
  increase by \<open>m\<close> leaves every header at its original level plus \<open>m\<close>, then a
  decrease by \<open>m\<close> of the result, with the original levels taken again from the
  increased levels, gives every header its first level back.
\<close>

theorem increase_then_decrease_restores:
  assumes p: "parseHeaders ed fromLine toLine = Some hs" and m: "0 < m"
    and unclamped: "\<forall>i<length hs. level (updateHeaderLevels hs increase m ! i) = originalLevel (hs ! i) + m"
  shows "map level (updateHeaderLevels (resnapshot (updateHeaderLevels hs increase m)) decrease m)
           = map level hs"
proof -
  let ?h1 = "updateHeaderLevels hs increase m"
  let ?r = "resnapshot ?h1"
  let ?h2 = "updateHeaderLevels ?r decrease m"
  from p have f: "forest_ok hs" by (rule parseHeaders_forest_ok)
  have sh1: "same_shape hs ?h1" by (rule same_shape_updateHeaderLevels)
  have sh2: "same_shape ?r ?h2" by (rule same_shape_updateHeaderLevels)
  have len: "length ?r = length hs" "length ?h1 = length hs" "length ?h2 = length hs"
    using sh1 sh2 by (auto simp: same_shape_def resnapshot_def)
  have rp: "parent (?r ! i) = parent (hs ! i)" and ro: "originalLevel (?r ! i) = originalLevel (hs ! i) + m"
    if "i < length hs" for i
    using that sh1 unclamped len by (auto simp: resnapshot_nth same_shape_def)
  have pl: "\<forall>i<length ?r. \<forall>q. parent (?r ! i) = Some q \<longrightarrow> q < i"
    using forest_parent_before[OF f] rp len by simp
  have st: "\<forall>j<length hs. level (?h2 ! j) = new_level decrease m ?h2 (?h2 ! j)"
    using decrease_fold_stable[OF pl le_refl, of m] len by (simp add: updateHeaderLevels_def)
  have "level (?h2 ! j) = originalLevel (hs ! j)" if "j < length hs" for j
    using that
  proof (induction j rule: less_induct)
    case (less j)
    from sh2 less.prems len rp ro have o: "originalLevel (?h2 ! j) = originalLevel (hs ! j) + m"
      and pa: "parent (?h2 ! j) = parent (hs ! j)" by (auto simp: same_shape_def)
    from forest_original_range[OF f less.prems]
    have r: "1 \<le> originalLevel (hs ! j)" "originalLevel (hs ! j) \<le> 6" .
    from st less.prems have lv: "level (?h2 ! j) = new_level decrease m ?h2 (?h2 ! j)" by simp
    show ?case
    proof (cases "parent (hs ! j)")
      case None
      with lv o pa r show ?thesis by (simp add: new_level_def Let_def)
    next
      case (Some q)
      from forest_original_nested[OF f less.prems Some]
      have q: "q < j" "originalLevel (hs ! q) < originalLevel (hs ! j)" .
      with less.IH[of q] less.prems have "level (?h2 ! q) = originalLevel (hs ! q)" by simp
      with lv o pa r q Some show ?thesis by (simp add: new_level_def Let_def)
    qed
  qed
  moreover have "originalLevel (hs ! j) = level (hs ! j)" if "j < length hs" for j
    using f that by (simp add: forest_ok_def levels_fresh_def)
  ultimately show ?thesis
    using len by (intro nth_equalityI) auto
qed

theorem increase_then_decrease_restores_witness:
  "parseHeaders (editor_of_text ''# A\<newline>## B\<newline>### C\<newline>'') 0 3 \<noteq> None \<and> (0::int) < 1 \<and>
   map level (updateHeaderLevels (the (parseHeaders (editor_of_text ''# A\<newline>## B\<newline>### C\<newline>'') 0 3)) increase 1) = [2, 3, 4] \<and>
   map level (updateHeaderLevels (resnapshot (updateHeaderLevels
       (the (parseHeaders (editor_of_text ''# A\<newline>## B\<newline>### C\<newline>'') 0 3)) increase 1)) decrease 1) = [1, 2, 3]"
proof -
  let ?hs = "[\<lparr>level = 1, originalLevel = 1, lineNumber = 1, content = ''A'', parent = None, children = [1]\<rparr>,
           \<lparr>level = 2, originalLevel = 2, lineNumber = 2, content = ''B'', parent = Some 0, children = [2]\<rparr>,
           \<lparr>level = 3, originalLevel = 3, lineNumber = 3, content = ''C'', parent = Some 1, children = []\<rparr>]"
  have m: "(0::int) < 1" by simp
  have l: "map level (updateHeaderLevels ?hs increase 1) = [2, 3, 4]"
    by code_simp
  have u: "\<forall>i<length ?hs. level (updateHeaderLevels ?hs increase 1 ! i) = originalLevel (?hs ! i) + 1"
  proof (intro allI impI)
    fix i assume "i < length ?hs"
    then have "i = 0 \<or> i = 1 \<or> i = 2" by auto
    moreover have "level (updateHeaderLevels ?hs increase 1 ! 0) = 2"
      "level (updateHeaderLevels ?hs increase 1 ! 1) = 3"
      "level (updateHeaderLevels ?hs increase 1 ! 2) = 4" by code_simp+
    ultimately show "level (updateHeaderLevels ?hs increase 1 ! i) = originalLevel (?hs ! i) + 1"
      by auto
  qed
  from increase_then_decrease_restores[OF parse_abc m u] l m show ?thesis
    unfolding parse_abc by simp
qed

section \<open>The parent of a header\<close>

text \<open>
  C3. For every buffer and every line range the parser returns, and in the headers it
  returns the parent of each header is the nearest header before it with a strictly
  smaller level (none when there is no such header in the range), and the children list
  of each header holds exactly the headers whose parent it is, each once, in document
  order. Every header stands for a matching line of the range, in ascending order.
\<close>

theorem parent_is_nearest_smaller:
  "\<exists>hs. parseHeaders ed fromLine toLine = Some hs \<and> parent_nearest hs \<and> children_once hs \<and>
        lines_ok ed (max 0 fromLine) (min (lineCount ed - 1) toLine) hs"
proof -
  from parseHeaders_forest[of ed fromLine toLine] obtain hs where
    hs: "parseHeaders ed fromLine toLine = Some hs" "forest_ok hs" by blast
  with parseHeaders_lines[OF hs(1)] show ?thesis by (auto simp: forest_ok_def)
qed

lemma parse_mixed:
  "parseHeaders [''# A'', ''### B'', ''plain'', ''## C'', ''#### D'', ''# E''] 1 10 =
     Some [\<lparr>level = 3, originalLevel = 3, lineNumber = 2, content = ''B'', parent = None, children = []\<rparr>,
           \<lparr>level = 2, originalLevel = 2, lineNumber = 4, content = ''C'', parent = None, children = [2]\<rparr>,
           \<lparr>level = 4, originalLevel = 4, lineNumber = 5, content = ''D'', parent = Some 1, children = []\<rparr>,
           \<lparr>level = 1, originalLevel = 1, lineNumber = 6, content = ''E'', parent = None, children = []\<rparr>]"
  by code_simp

theorem parent_is_nearest_smaller_witness:
  "\<exists>hs. parseHeaders [''# A'', ''### B'', ''plain'', ''## C'', ''#### D'', ''# E''] 1 10 = Some hs \<and>
     parent_nearest hs \<and> children_once hs \<and> lines_ok [''# A'', ''### B'', ''plain'', ''## C'', ''#### D'', ''# E''] 1 5 hs \<and>
     map parent hs = [None, None, Some 1, None] \<and> map children hs = [[], [2], [], []]"
  using parent_is_nearest_smaller[of "[''# A'', ''### B'', ''plain'', ''## C'', ''#### D'', ''# E'']" 1 10]
  unfolding parse_mixed by (simp add: lineCount_def)

section \<open>The change applier and the transaction\<close>

subsection \<open>The transaction touches the lines of its changes only\<close>

lemma length_fold_apply_change [simp]: "length (fold (apply_change old) cs ed) = length ed"
  by (induction cs arbitrary: ed) (simp_all add: apply_change_def)

lemma length_transaction [simp]: "length (transaction ed cs) = length ed"
  by (simp add: transaction_def)

lemma fold_apply_change_other:
  "\<forall>c\<in>set cs. nat (line (change_from c)) \<noteq> i \<Longrightarrow> fold (apply_change old) cs ed ! i = ed ! i"
  by (induction cs arbitrary: ed) (simp_all add: apply_change_def)

lemma transaction_other:
  "\<forall>c\<in>set cs. nat (line (change_from c)) \<noteq> i \<Longrightarrow> transaction ed cs ! i = ed ! i"
  by (simp add: transaction_def fold_apply_change_other)

subsection \<open>The changes of the applier\<close>

lemma concat_replicate_hash: "concat (replicate n ''#'') = replicate n CHR ''#''"
  by (induction n) simp_all

lemma potential_change_eq:
  "0 \<le> level h \<Longrightarrow>
     potential_change h = Some (if changed h then Some (header_change h) else None)"
  by (simp add: potential_change_def js_repeat_def changed_def header_change_def Let_def
      concat_replicate_hash)

lemma those_map_Some: "\<forall>x\<in>set xs. f x = Some (g x) \<Longrightarrow> those (map f xs) = Some (map g xs)"
  by (induction xs) simp_all

lemma actual_changes:
  "map the (filter (\<lambda>change. change \<noteq> None)
      (map (\<lambda>h. if changed h then Some (header_change h) else None) xs))
   = map header_change (filter changed xs)"
  by (induction xs) simp_all

lemma actual_changes_ex:
  "map the (filter (\<lambda>change. \<exists>y. change = Some y)
      (map (\<lambda>h. if changed h then Some (header_change h) else None) xs))
   = map header_change (filter changed xs)"
  by (induction xs) simp_all

lemma set_sort_descending [simp]: "set (sort_descending hs) = set hs"
  by (simp add: sort_descending_def)

lemma applyHeaderChanges_eq:
  assumes "\<forall>h\<in>set hs. 0 \<le> level h"
  shows "applyHeaderChanges ed hs =
           Some (transaction ed (map header_change (filter changed (sort_descending hs))))"
proof -
  let ?f = "\<lambda>h. if changed h then Some (header_change h) else None"
  from assms have "those (map potential_change (sort_descending hs)) = Some (map ?f (sort_descending hs))"
    by (intro those_map_Some) (simp add: potential_change_eq)
  then show ?thesis
    by (simp add: applyHeaderChanges_def Let_def actual_changes_ex transaction_def del: those.simps)
qed

lemma applyHeaderChanges_001_eq:
  assumes "\<forall>h\<in>set hs. 0 \<le> level h"
  shows "applyHeaderChanges_001 ed hs =
           Some (transaction ed (map header_change (filter changed (sort_descending hs))))"
proof -
  let ?f = "\<lambda>h. if changed h then Some (header_change h) else None"
  from assms have "those (map potential_change (sort_descending hs)) = Some (map ?f (sort_descending hs))"
    by (intro those_map_Some) (simp add: potential_change_eq)
  then show ?thesis
    by (simp add: applyHeaderChanges_001_def Let_def actual_changes_ex del: those.simps)
qed

lemma applied_line_unchanged:
  assumes "\<forall>h\<in>set hs. changed h \<longrightarrow> lineNumber h - 1 \<noteq> int i"
    and "\<forall>h\<in>set hs. 1 \<le> lineNumber h"
  shows "transaction ed (map header_change (filter changed (sort_descending hs))) ! i = ed ! i"
proof (rule transaction_other, rule ballI)
  fix c assume "c \<in> set (map header_change (filter changed (sort_descending hs)))"
  then obtain h where h: "h \<in> set hs" "changed h" "c = header_change h" by auto
  with assms have "lineNumber h - 1 \<noteq> int i" "0 \<le> lineNumber h - 1" by auto
  then have "nat (lineNumber h - 1) \<noteq> i" by linarith
  with h show "nat (line (change_from c)) \<noteq> i" by (simp add: header_change_def)
qed

section \<open>Runs of the orchestrator\<close>

lemma new_level_ge_1: "1 \<le> new_level operation m hs h"
  by (auto simp: new_level_def Let_def split: option.splits)

lemma updated_level_ge_1:
  assumes f: "forest_ok hs" and j: "j < length hs"
  shows "1 \<le> level (updateHeaderLevels hs operation m ! j)"
  using updateHeaderLevels_stable[OF forest_parent_before[OF f] forest_children_after[OF f] j,
      of operation m] new_level_ge_1 by simp

lemma length_updateHeaderLevels [simp]: "length (updateHeaderLevels hs operation m) = length hs"
  using same_shape_updateHeaderLevels[of hs operation m] by (simp add: same_shape_def)

lemma updated_levels_nonneg:
  assumes "forest_ok hs"
  shows "\<forall>h\<in>set (updateHeaderLevels hs operation m). 0 \<le> level h"
proof
  fix h assume "h \<in> set (updateHeaderLevels hs operation m)"
  then obtain j where "j < length hs" "h = updateHeaderLevels hs operation m ! j"
    by (auto simp: in_set_conv_nth)
  with updated_level_ge_1[OF assms, of j operation m] show "0 \<le> level h" by simp
qed

lemma updated_header_lines:
  assumes p: "parseHeaders ed s e = Some hs" and h: "h \<in> set (updateHeaderLevels hs operation m)"
  shows "header_of_line ed (max 0 s) (min (lineCount ed - 1) e) h"
proof -
  from h obtain j where j: "j < length hs" "h = updateHeaderLevels hs operation m ! j"
    by (auto simp: in_set_conv_nth)
  from parseHeaders_lines[OF p] j have "header_of_line ed (max 0 s) (min (lineCount ed - 1) e) (hs ! j)"
    by (simp add: lines_ok_def list_all_length)
  moreover from same_shape_updateHeaderLevels[of hs operation m] j
  have "lineNumber h = lineNumber (hs ! j)" "originalLevel h = originalLevel (hs ! j)"
    "content h = content (hs ! j)" by (auto simp: same_shape_def)
  ultimately show ?thesis by (simp add: header_of_line_cong[of h "hs ! j"])
qed

lemma process_early:
  "start_of frl > end_of ed tol \<Longrightarrow> processHeaderAdjustment ed operation m frl tol =
     Some (ed, console_warn ''[Header Adjuster] Start line is after end line, skipping adjustment.'')"
  "\<not> start_of frl > end_of ed tol \<Longrightarrow> m = 0 \<Longrightarrow> processHeaderAdjustment ed operation m frl tol =
     Some (ed, console_log ''[Header Adjuster] Adjustment level is 0, skipping.'')"
  "\<not> start_of frl > end_of ed tol \<Longrightarrow> m < 0 \<Longrightarrow> processHeaderAdjustment ed operation m frl tol =
     Some (ed, console_warn ''[Header Adjuster] Adjustment level is negative, skipping.'')"
  "\<not> start_of frl > end_of ed tol \<Longrightarrow> 0 < m \<Longrightarrow> parseHeaders ed (start_of frl) (end_of ed tol) = Some [] \<Longrightarrow>
     processHeaderAdjustment ed operation m frl tol =
     Some (ed, Notice ''No headers found in the specified range/selection.'')"
  by (simp_all add: processHeaderAdjustment_def start_of_def end_of_def Let_def)

lemma process_run:
  assumes "\<not> start_of frl > end_of ed tol" "0 < m"
    and p: "parseHeaders ed (start_of frl) (end_of ed tol) = Some hs" and ne: "hs \<noteq> []"
  shows "processHeaderAdjustment ed operation m frl tol =
     Some (transaction ed (map header_change (filter changed
             (sort_descending (updateHeaderLevels hs operation m)))),
           if length (filter changed (updateHeaderLevels hs operation m)) > 0
           then Notice (''Adjusted '' @ show_nat (length (filter changed (updateHeaderLevels hs operation m)))
                        @ '' header(s).'')
           else Notice ''No header levels needed adjustment in the range.'')"
proof -
  from p have f: "forest_ok hs" by (rule parseHeaders_forest_ok)
  have a: "applyHeaderChanges ed (updateHeaderLevels hs operation m) =
      Some (transaction ed (map header_change (filter changed
             (sort_descending (updateHeaderLevels hs operation m)))))"
    by (rule applyHeaderChanges_eq[OF updated_levels_nonneg[OF f]])
  from assms(1,2) ne show ?thesis
    unfolding processHeaderAdjustment_def start_of_def[symmetric] end_of_def[symmetric] Let_def
    by (simp add: p a)
qed

lemma process_cases:
  obtains "start_of frl > end_of ed tol \<or> m \<le> 0 \<or> parseHeaders ed (start_of frl) (end_of ed tol) = Some []"
    "\<exists>msg. processHeaderAdjustment ed operation m frl tol = Some (ed, msg)"
  | hs where "\<not> start_of frl > end_of ed tol" "0 < m"
      "parseHeaders ed (start_of frl) (end_of ed tol) = Some hs" "hs \<noteq> []"
proof -
  from parseHeaders_forest[of ed "start_of frl" "end_of ed tol"] obtain hs where
    hs: "parseHeaders ed (start_of frl) (end_of ed tol) = Some hs" by blast
  consider "start_of frl > end_of ed tol" | "\<not> start_of frl > end_of ed tol" "m = 0"
    | "\<not> start_of frl > end_of ed tol" "m < 0" | "\<not> start_of frl > end_of ed tol" "0 < m" "hs = []"
    | "\<not> start_of frl > end_of ed tol" "0 < m" "hs \<noteq> []" by linarith
  then show ?thesis
  proof cases
    case 1 with process_early(1)[of ed tol frl operation m] that(1) show ?thesis by simp
  next
    case 2 with process_early(2)[of ed tol frl m operation] that(1) show ?thesis by simp
  next
    case 3 with process_early(3)[of ed tol frl m operation] that(1) show ?thesis by simp
  next
    case 4 with process_early(4)[of ed tol frl m operation] hs that(1) show ?thesis by simp
  next
    case 5 with hs that(2) show ?thesis by simp
  qed
qed

section \<open>The lines a run leaves alone\<close>

lemma no_header_line_no_match:
  assumes "no_header_line s"
  shows "HEADER_REGEX s = None"
proof (rule ccontr)
  assume "HEADER_REGEX s \<noteq> None"
  then obtain h b where m: "HEADER_REGEX s = Some (h, b)" by auto
  let ?n = "length (takeWhile (\<lambda>c. c = CHR ''#'') s)"
  let ?rest = "dropWhile (\<lambda>c. c = CHR ''#'') s"
  from HEADER_REGEX_Some(2,4,6)[OF m] have n6: "?n \<le> 6"
    and ws: "takeWhile js_whitespace ?rest \<noteq> []" by auto
  from ws have ne: "?rest \<noteq> []" and w: "js_whitespace (hd ?rest)"
    by (auto simp: takeWhile_eq_Nil_iff)
  have d: "?rest = drop ?n s" by (rule dropWhile_eq_drop)
  with ne have lt: "?n < length s" by simp
  then have "hd ?rest = s ! ?n" unfolding d by (rule hd_drop_conv_nth)
  with w lt n6 assms show False by (simp add: no_header_line_def Let_def)
qed

lemma run_frame:
  "\<exists>ed' msg. processHeaderAdjustment ed operation m frl tol = Some (ed', msg) \<and>
     length ed' = length ed \<and>
     (\<forall>i<length ed. \<not> changed_header_line ed operation m (start_of frl) (end_of ed tol) i
          \<longrightarrow> ed' ! i = ed ! i)"
proof (cases rule: process_cases[where frl=frl and ed=ed and tol=tol and m=m and operation=operation])
  case 1
  then show ?thesis by auto
next
  case (2 hs)
  let ?hs = "updateHeaderLevels hs operation m"
  let ?ed = "transaction ed (map header_change (filter changed (sort_descending ?hs)))"
  have pos: "\<forall>h\<in>set ?hs. 1 \<le> lineNumber h"
  proof
    fix h assume "h \<in> set ?hs"
    from updated_header_lines[OF 2(3) this] show "1 \<le> lineNumber h"
      by (simp add: header_of_line_def)
  qed
  have "?ed ! i = ed ! i"
    if "\<not> changed_header_line ed operation m (start_of frl) (end_of ed tol) i" for i
  proof (rule applied_line_unchanged[OF _ pos], rule ballI, rule impI)
    fix h assume "h \<in> set ?hs" "changed h"
    with that 2(3) have "lineNumber h \<noteq> int i + 1"
      by (auto simp: changed_header_line_def list_ex_iff)
    then show "lineNumber h - 1 \<noteq> int i" by simp
  qed
  with process_run[OF 2, of operation] show ?thesis by simp
qed

lemma changed_header_line_matches:
  assumes "changed_header_line ed operation m s e i"
  shows "max 0 s \<le> int i \<and> int i \<le> min (lineCount ed - 1) e \<and> HEADER_REGEX (ed ! i) \<noteq> None"
proof -
  from assms obtain hs h where p: "parseHeaders ed s e = Some hs"
    and h: "h \<in> set (updateHeaderLevels hs operation m)" "lineNumber h = int i + 1"
    by (auto simp: changed_header_line_def list_ex_iff split: option.splits)
  from updated_header_lines[OF p h(1)] h(2) show ?thesis
    by (simp add: header_of_line_def getLine_def)
qed

text \<open>
  C10. A line whose leading run of hashes is longer than six, or is not followed by a
  white space character, is the line of no header that the parser returns, whatever the
  range, and a run of the pipeline leaves it as it is, whatever the operation, the
  magnitude and the range.
\<close>

theorem no_header_line_untouched:
  assumes "i < length ed" and "no_header_line (ed ! i)"
  shows "(\<forall>hs. parseHeaders ed fromLine toLine = Some hs \<longrightarrow> (\<forall>h\<in>set hs. lineNumber h \<noteq> int i + 1)) \<and>
         (\<exists>ed' msg. processHeaderAdjustment ed operation m frl tol = Some (ed', msg) \<and> ed' ! i = ed ! i)"
proof
  from no_header_line_no_match[OF assms(2)] have n: "HEADER_REGEX (ed ! i) = None" .
  show "\<forall>hs. parseHeaders ed fromLine toLine = Some hs \<longrightarrow> (\<forall>h\<in>set hs. lineNumber h \<noteq> int i + 1)"
  proof (intro allI impI ballI)
    fix hs h assume p: "parseHeaders ed fromLine toLine = Some hs" and h: "h \<in> set hs"
    from parseHeaders_lines[OF p] h
    have "HEADER_REGEX (getLine ed (lineNumber h - 1)) \<noteq> None"
      by (auto simp: lines_ok_def list_all_iff header_of_line_def)
    with n show "lineNumber h \<noteq> int i + 1" by (auto simp: getLine_def)
  qed
  from n changed_header_line_matches[of ed operation m "start_of frl" "end_of ed tol" i]
  have "\<not> changed_header_line ed operation m (start_of frl) (end_of ed tol) i" by auto
  with run_frame[of ed operation m frl tol] assms(1)
  show "\<exists>ed' msg. processHeaderAdjustment ed operation m frl tol = Some (ed', msg) \<and> ed' ! i = ed ! i"
    by auto
qed

theorem no_header_line_untouched_witness:
  "(0::nat) < length [''####### seven'', ''#tag'', ''# A''] \<and>
   no_header_line ([''####### seven'', ''#tag'', ''# A''] ! 0) \<and>
   (\<exists>hs. parseHeaders [''####### seven'', ''#tag'', ''# A''] 0 2 = Some hs \<and>
      map lineNumber hs = [3] \<and> list_all (\<lambda>h. lineNumber h \<noteq> int 0 + 1) hs) \<and>
   (\<exists>ed' msg. processHeaderAdjustment [''####### seven'', ''#tag'', ''# A''] increase 1 None None
       = Some (ed', msg) \<and> ed' ! 0 = [''####### seven'', ''#tag'', ''# A''] ! 0)"
proof -
  let ?ed = "[''####### seven'', ''#tag'', ''# A'']"
  let ?hs = "[\<lparr>level = 1, originalLevel = 1, lineNumber = 3, content = ''A'', parent = None, children = []\<rparr>]"
  have l: "(0::nat) < length ?ed" by simp
  have n: "no_header_line (?ed ! 0)" by code_simp
  have p: "parseHeaders ?ed 0 2 = Some ?hs" by code_simp
  from no_header_line_untouched[OF l n, of 0 2 increase 1 None None] p
  have a: "\<forall>h\<in>set ?hs. lineNumber h \<noteq> int 0 + 1"
    and b: "\<exists>ed' msg. processHeaderAdjustment ?ed increase 1 None None = Some (ed', msg) \<and> ed' ! 0 = ?ed ! 0"
    by blast+
  from a have "list_all (\<lambda>h. lineNumber h \<noteq> int 0 + 1) ?hs" unfolding list_all_iff .
  with p have "\<exists>hs. parseHeaders ?ed 0 2 = Some hs \<and> map lineNumber hs = [3] \<and>
      list_all (\<lambda>h. lineNumber h \<noteq> int 0 + 1) hs" by simp
  with l n b show ?thesis by blast
qed

section \<open>The messages of a run\<close>

lemma show_nat_nonempty: "show_nat n \<noteq> []"
  by (subst show_nat.simps) simp

lemma show_nat_length_1: "length (show_nat n) = Suc 0 \<longleftrightarrow> n < 10"
proof (cases "n < 10")
  case True
  then show ?thesis by (subst show_nat.simps) simp
next
  case False
  have "length (show_nat n) = length (show_nat (n div 10)) + 1"
    using False by (subst show_nat.simps) simp
  with show_nat_nonempty[of "n div 10"] False show ?thesis by (cases "show_nat (n div 10)") auto
qed

lemma digit_inj: "a < 10 \<Longrightarrow> b < 10 \<Longrightarrow> char_of (48 + a) = (char_of (48 + b) :: char) \<Longrightarrow> a = (b::nat)"
proof -
  assume a: "a < 10" and b: "b < 10" and e: "char_of (48 + a) = (char_of (48 + b) :: char)"
  from e have "of_char (char_of (48 + a) :: char) = (of_char (char_of (48 + b) :: char) :: nat)" by simp
  with a b show "a = b" by (simp add: of_char_of)
qed

lemma show_nat_inj: "show_nat a = show_nat b \<Longrightarrow> a = b"
proof (induction a arbitrary: b rule: show_nat.induct)
  case (1 n)
  show ?case
  proof (cases "n < 10")
    case True
    then have s: "show_nat n = [char_of (48 + n)]" by (subst show_nat.simps) simp
    from True have "length (show_nat n) = Suc 0" by (simp add: show_nat_length_1)
    with "1.prems" have "length (show_nat b) = Suc 0" by simp
    then have b: "b < 10" by (simp add: show_nat_length_1)
    then have "show_nat b = [char_of (48 + b)]" by (subst show_nat.simps) simp
    with s "1.prems" True b show ?thesis by (auto dest: digit_inj)
  next
    case False
    then have s: "show_nat n = show_nat (n div 10) @ [char_of (48 + n mod 10)]"
      by (subst show_nat.simps) simp
    from False have "length (show_nat n) \<noteq> Suc 0" by (simp add: show_nat_length_1)
    with "1.prems" have b: "\<not> b < 10" by (simp add: show_nat_length_1)
    then have sb: "show_nat b = show_nat (b div 10) @ [char_of (48 + b mod 10)]"
      by (subst show_nat.simps) simp
    from s sb "1.prems" have e: "show_nat (n div 10) = show_nat (b div 10)"
      "char_of (48 + n mod 10) = (char_of (48 + b mod 10) :: char)" by auto
    from "1.IH"[OF False e(1)] have "n div 10 = b div 10" .
    moreover from e(2) have "n mod 10 = b mod 10" by (intro digit_inj) auto
    ultimately show ?thesis by (metis div_mult_mod_eq)
  qed
qed

text \<open>
  C8. When the range is in order and the magnitude positive, the run ends with a notice
  that depends on the headers the parser returned. With at least one header it is the
  notice of the number of headers whose adjusted level differs from their original level,
  or, when there is none, the notice that no level needed adjustment. With no header it is
  the notice that no header was found. The run gives the no-headers notice exactly when
  the parser returned no header, the no-adjustment notice exactly when it returned some
  and none changed, and the notice of a number exactly for the number of changed headers.
\<close>

theorem report_changed_count:
  assumes "\<not> start_of frl > end_of ed tol" and "0 < m"
    and "parseHeaders ed (start_of frl) (end_of ed tol) = Some hs"
  shows "\<exists>ed' msg. processHeaderAdjustment ed operation m frl tol = Some (ed', msg) \<and>
           msg = (if hs = [] then Notice ''No headers found in the specified range/selection.''
                  else if length (filter changed (updateHeaderLevels hs operation m)) = 0
                  then Notice ''No header levels needed adjustment in the range.''
                  else Notice (''Adjusted '' @ show_nat (length (filter changed (updateHeaderLevels hs operation m)))
                               @ '' header(s).'')) \<and>
           (msg = Notice ''No headers found in the specified range/selection.'' \<longleftrightarrow> hs = []) \<and>
           (msg = Notice ''No header levels needed adjustment in the range.'' \<longleftrightarrow>
              hs \<noteq> [] \<and> length (filter changed (updateHeaderLevels hs operation m)) = 0) \<and>
           (\<forall>k. msg = Notice (''Adjusted '' @ show_nat k @ '' header(s).'') \<longleftrightarrow>
              hs \<noteq> [] \<and> 0 < k \<and> k = length (filter changed (updateHeaderLevels hs operation m))) \<and>
           Notice ''No header levels needed adjustment in the range.''
             \<noteq> Notice ''No headers found in the specified range/selection.'' \<and>
           Notice (''Adjusted '' @ show_nat n @ '' header(s).'')
             \<noteq> Notice ''No headers found in the specified range/selection.'' \<and>
           Notice (''Adjusted '' @ show_nat n @ '' header(s).'')
             \<noteq> Notice ''No header levels needed adjustment in the range.'' \<and>
           (Notice (''Adjusted '' @ show_nat n @ '' header(s).'') = Notice (''Adjusted '' @ show_nat j @ '' header(s).'')
             \<longleftrightarrow> n = j)"
proof -
  let ?c = "length (filter changed (updateHeaderLevels hs operation m))"
  have inj: "(''Adjusted '' @ show_nat a @ '' header(s).'' = ''Adjusted '' @ show_nat b @ '' header(s).'') \<longleftrightarrow> a = b"
    for a b using show_nat_inj[of a b] by auto
  show ?thesis
  proof (cases "hs = []")
    case True
    from process_early(4)[OF assms(1,2) assms(3)[unfolded True], of operation]
    have "processHeaderAdjustment ed operation m frl tol =
            Some (ed, Notice ''No headers found in the specified range/selection.'')" .
    with True inj show ?thesis by auto
  next
    case False
    note r = process_run[OF assms False, of operation]
    show ?thesis
    proof (cases "?c = 0")
      case True
      with r have "processHeaderAdjustment ed operation m frl tol =
          Some (transaction ed (map header_change (filter changed
             (sort_descending (updateHeaderLevels hs operation m)))),
                Notice ''No header levels needed adjustment in the range.'')" by simp
      with True False inj show ?thesis by auto
    next
      case nz: False
      with r have "processHeaderAdjustment ed operation m frl tol =
          Some (transaction ed (map header_change (filter changed
             (sort_descending (updateHeaderLevels hs operation m)))),
                Notice (''Adjusted '' @ show_nat ?c @ '' header(s).''))" by simp
      with nz False inj show ?thesis by auto
    qed
  qed
qed

theorem report_changed_count_witness:
  "(\<exists>ed'. processHeaderAdjustment [''# A'', ''## B'', ''note''] increase 1 None None =
       Some (ed', Notice ''Adjusted 2 header(s).'')) \<and>
   (\<exists>ed'. processHeaderAdjustment [''# X'', ''# Y''] decrease 1 None None =
       Some (ed', Notice ''No header levels needed adjustment in the range.'')) \<and>
   (\<exists>ed'. processHeaderAdjustment [''plain'', ''#tag''] decrease 1 None None =
       Some (ed', Notice ''No headers found in the specified range/selection.''))"
proof -
  let ?e1 = "[''# A'', ''## B'', ''note'']" and ?e2 = "[''# X'', ''# Y'']" and ?e3 = "[''plain'', ''#tag'']"
  let ?h1 = "[\<lparr>level = 1, originalLevel = 1, lineNumber = 1, content = ''A'', parent = None, children = [1]\<rparr>,
              \<lparr>level = 2, originalLevel = 2, lineNumber = 2, content = ''B'', parent = Some 0, children = []\<rparr>]"
  let ?h2 = "[\<lparr>level = 1, originalLevel = 1, lineNumber = 1, content = ''X'', parent = None, children = []\<rparr>,
              \<lparr>level = 1, originalLevel = 1, lineNumber = 2, content = ''Y'', parent = None, children = []\<rparr>]"
  have m: "(0::int) < 1" by simp
  have r1: "\<not> start_of None > end_of ?e1 None" and r2: "\<not> start_of None > end_of ?e2 None"
    and r3: "\<not> start_of None > end_of ?e3 None"
    by (simp_all add: start_of_def end_of_def lineCount_def)
  have p1: "parseHeaders ?e1 (start_of None) (end_of ?e1 None) = Some ?h1" by code_simp
  have p2: "parseHeaders ?e2 (start_of None) (end_of ?e2 None) = Some ?h2" by code_simp
  have p3: "parseHeaders ?e3 (start_of None) (end_of ?e3 None) = Some []" by code_simp
  have n1: "?h1 \<noteq> []" and n2: "?h2 \<noteq> []" by simp_all
  have c1: "length (filter changed (updateHeaderLevels ?h1 increase 1)) = 2" by code_simp
  have c2: "length (filter changed (updateHeaderLevels ?h2 decrease 1)) = 0" by code_simp
  have s: "show_nat 2 = ''2''" by code_simp
  from report_changed_count[OF r1 m p1, of increase 0 0] obtain ed1 msg1 where
    "processHeaderAdjustment ?e1 increase 1 None None = Some (ed1, msg1)"
    "msg1 = (if ?h1 = [] then Notice ''No headers found in the specified range/selection.''
             else if length (filter changed (updateHeaderLevels ?h1 increase 1)) = 0
             then Notice ''No header levels needed adjustment in the range.''
             else Notice (''Adjusted '' @ show_nat (length (filter changed (updateHeaderLevels ?h1 increase 1)))
                          @ '' header(s).''))"
    by blast
  then have 1: "processHeaderAdjustment ?e1 increase 1 None None = Some (ed1, Notice ''Adjusted 2 header(s).'')"
    unfolding c1 s by simp
  from report_changed_count[OF r2 m p2, of decrease 0 0] obtain ed2 msg2 where
    "processHeaderAdjustment ?e2 decrease 1 None None = Some (ed2, msg2)"
    "msg2 = (if ?h2 = [] then Notice ''No headers found in the specified range/selection.''
             else if length (filter changed (updateHeaderLevels ?h2 decrease 1)) = 0
             then Notice ''No header levels needed adjustment in the range.''
             else Notice (''Adjusted '' @ show_nat (length (filter changed (updateHeaderLevels ?h2 decrease 1)))
                          @ '' header(s).''))"
    by blast
  then have 2: "processHeaderAdjustment ?e2 decrease 1 None None =
       Some (ed2, Notice ''No header levels needed adjustment in the range.'')"
    unfolding c2 by simp
  from report_changed_count[OF r3 m p3, of decrease 0 0] obtain ed3 msg3 where
    "processHeaderAdjustment ?e3 decrease 1 None None = Some (ed3, msg3)"
    "msg3 = Notice ''No headers found in the specified range/selection.'' \<longleftrightarrow> ([]::HeaderObject list) = []"
    by blast
  then have 3: "processHeaderAdjustment ?e3 decrease 1 None None =
       Some (ed3, Notice ''No headers found in the specified range/selection.'')"
    by simp
  from 1 2 3 show ?thesis by blast
qed

lemma process_001_early:
  "start_of frl > end_of ed tol \<Longrightarrow> processHeaderAdjustment_001 ed operation m frl tol =
     Some (ed, console_warn ''[Header Adjuster] Start line is after end line, skipping adjustment.'')"
  "\<not> start_of frl > end_of ed tol \<Longrightarrow> parseHeaders ed (start_of frl) (end_of ed tol) = Some [] \<Longrightarrow>
     processHeaderAdjustment_001 ed operation m frl tol =
     Some (ed, Notice ''No headers found in the specified range/selection.'')"
  by (simp_all add: processHeaderAdjustment_001_def start_of_def end_of_def Let_def)

text \<open>
  C5, as far as it holds. \<open>processHeaderAdjustment\<close> returns the buffer as it was, with
  a message of its own for each case, when the range starts after its end, else when the
  magnitude is zero, else when it is negative, else when the parser finds no header. Only
  the last message is a notice to the user; the other three are lines on the console. The
  earlier variant does so for the range and for the absence of headers.
\<close>

theorem early_exits:
  "(start_of frl > end_of ed tol \<longrightarrow>
      processHeaderAdjustment ed operation m frl tol =
        Some (ed, console_warn ''[Header Adjuster] Start line is after end line, skipping adjustment.'')) \<and>
   (\<not> start_of frl > end_of ed tol \<and> m = 0 \<longrightarrow>
      processHeaderAdjustment ed operation m frl tol =
        Some (ed, console_log ''[Header Adjuster] Adjustment level is 0, skipping.'')) \<and>
   (\<not> start_of frl > end_of ed tol \<and> m < 0 \<longrightarrow>
      processHeaderAdjustment ed operation m frl tol =
        Some (ed, console_warn ''[Header Adjuster] Adjustment level is negative, skipping.'')) \<and>
   (\<not> start_of frl > end_of ed tol \<and> 0 < m \<and> parseHeaders ed (start_of frl) (end_of ed tol) = Some [] \<longrightarrow>
      processHeaderAdjustment ed operation m frl tol =
        Some (ed, Notice ''No headers found in the specified range/selection.'')) \<and>
   distinct [console_warn ''[Header Adjuster] Start line is after end line, skipping adjustment.'',
             console_log ''[Header Adjuster] Adjustment level is 0, skipping.'',
             console_warn ''[Header Adjuster] Adjustment level is negative, skipping.'',
             Notice ''No headers found in the specified range/selection.''] \<and>
   map user_facing
            [console_warn ''[Header Adjuster] Start line is after end line, skipping adjustment.'',
             console_log ''[Header Adjuster] Adjustment level is 0, skipping.'',
             console_warn ''[Header Adjuster] Adjustment level is negative, skipping.'',
             Notice ''No headers found in the specified range/selection.'']
     = [False, False, False, True] \<and>
   (start_of frl > end_of ed tol \<longrightarrow>
      processHeaderAdjustment_001 ed operation m frl tol =
        Some (ed, console_warn ''[Header Adjuster] Start line is after end line, skipping adjustment.'')) \<and>
   (\<not> start_of frl > end_of ed tol \<and> parseHeaders ed (start_of frl) (end_of ed tol) = Some [] \<longrightarrow>
      processHeaderAdjustment_001 ed operation m frl tol =
        Some (ed, Notice ''No headers found in the specified range/selection.''))"
proof -
  have d: "distinct [console_warn ''[Header Adjuster] Start line is after end line, skipping adjustment.'',
             console_log ''[Header Adjuster] Adjustment level is 0, skipping.'',
             console_warn ''[Header Adjuster] Adjustment level is negative, skipping.'',
             Notice ''No headers found in the specified range/selection.'']" by simp
  have u: "map user_facing
            [console_warn ''[Header Adjuster] Start line is after end line, skipping adjustment.'',
             console_log ''[Header Adjuster] Adjustment level is 0, skipping.'',
             console_warn ''[Header Adjuster] Adjustment level is negative, skipping.'',
             Notice ''No headers found in the specified range/selection.'']
     = [False, False, False, True]" by simp
  show ?thesis
    using process_early[where frl=frl and ed=ed and tol=tol and operation=operation and m=m]
      process_001_early[where frl=frl and ed=ed and tol=tol and operation=operation and m=m] d u
    by blast
qed

theorem early_exits_witness:
  "processHeaderAdjustment [''# A''] increase 1 (Some 1) (Some 0) =
     Some ([''# A''], console_warn ''[Header Adjuster] Start line is after end line, skipping adjustment.'') \<and>
   processHeaderAdjustment [''# A''] increase 0 None None =
     Some ([''# A''], console_log ''[Header Adjuster] Adjustment level is 0, skipping.'') \<and>
   processHeaderAdjustment [''# A''] decrease (- 1) None None =
     Some ([''# A''], console_warn ''[Header Adjuster] Adjustment level is negative, skipping.'') \<and>
   processHeaderAdjustment [''plain'', ''#tag''] decrease 1 None None =
     Some ([''plain'', ''#tag''], Notice ''No headers found in the specified range/selection.'') \<and>
   processHeaderAdjustment_001 [''plain'', ''#tag''] decrease 1 None None =
     Some ([''plain'', ''#tag''], Notice ''No headers found in the specified range/selection.'')"
proof -
  have h1: "start_of (Some 1) > end_of [''# A''] (Some 0)"
    by (simp add: start_of_def end_of_def)
  have h2: "\<not> start_of None > end_of [''# A''] None \<and> (0::int) = 0"
    by (simp add: start_of_def end_of_def lineCount_def)
  have h3: "\<not> start_of None > end_of [''# A''] None \<and> (- 1::int) < 0"
    by (simp add: start_of_def end_of_def lineCount_def)
  have p: "parseHeaders [''plain'', ''#tag''] (start_of None) (end_of [''plain'', ''#tag''] None) = Some []"
    by code_simp
  have h4: "\<not> start_of None > end_of [''plain'', ''#tag''] None \<and> (0::int) < 1"
    by (simp add: start_of_def end_of_def lineCount_def)
  from early_exits[where frl="Some 1" and ed="[''# A'']" and tol="Some 0" and operation=increase and m=1] h1
  have 1: "processHeaderAdjustment [''# A''] increase 1 (Some 1) (Some 0) =
     Some ([''# A''], console_warn ''[Header Adjuster] Start line is after end line, skipping adjustment.'')"
    by blast
  from early_exits[where frl=None and ed="[''# A'']" and tol=None and operation=increase and m=0] h2
  have 2: "processHeaderAdjustment [''# A''] increase 0 None None =
     Some ([''# A''], console_log ''[Header Adjuster] Adjustment level is 0, skipping.'')"
    by blast
  from early_exits[where frl=None and ed="[''# A'']" and tol=None and operation=decrease and m="- 1"] h3
  have 3: "processHeaderAdjustment [''# A''] decrease (- 1) None None =
     Some ([''# A''], console_warn ''[Header Adjuster] Adjustment level is negative, skipping.'')"
    by blast
  from early_exits[where frl=None and ed="[''plain'', ''#tag'']" and tol=None and operation=decrease and m=1] h4 p
  have 4: "processHeaderAdjustment [''plain'', ''#tag''] decrease 1 None None =
     Some ([''plain'', ''#tag''], Notice ''No headers found in the specified range/selection.'')"
    "processHeaderAdjustment_001 [''plain'', ''#tag''] decrease 1 None None =
     Some ([''plain'', ''#tag''], Notice ''No headers found in the specified range/selection.'')"
    by blast+
  from 1 2 3 4 show ?thesis by blast
qed

text \<open>
  A reversed range ends the run with a line on the console, which the user does not see.
  In the earlier variant a magnitude of zero runs the whole pipeline, and a negative
  magnitude rewrites the buffer.
\<close>

theorem early_exit_counterexample:
  "processHeaderAdjustment [''# A''] increase 1 (Some 1) (Some 0) =
     Some ([''# A''], console_warn ''[Header Adjuster] Start line is after end line, skipping adjustment.'') \<and>
   \<not> user_facing (console_warn ''[Header Adjuster] Start line is after end line, skipping adjustment.'') \<and>
   processHeaderAdjustment_001 [''# A''] decrease 0 None None =
     Some ([''# A''], Notice ''Adjusted 0 header(s).'') \<and>
   processHeaderAdjustment_001 [''# A''] decrease (- 1) None None =
     Some ([''##  A''], Notice ''Adjusted 1 header(s).'')"
proof -
  have 1: "processHeaderAdjustment [''# A''] increase 1 (Some 1) (Some 0) =
     Some ([''# A''], console_warn ''[Header Adjuster] Start line is after end line, skipping adjustment.'')"
    by code_simp
  have 2: "\<not> user_facing (console_warn ''[Header Adjuster] Start line is after end line, skipping adjustment.'')"
    by simp
  have 3: "processHeaderAdjustment_001 [''# A''] decrease 0 None None =
     Some ([''# A''], Notice ''Adjusted 0 header(s).'')"
    by code_simp
  have 4: "processHeaderAdjustment_001 [''# A''] decrease (- 1) None None =
     Some ([''##  A''], Notice ''Adjusted 1 header(s).'')"
    by code_simp
  from 1 2 3 4 show ?thesis by blast
qed

text \<open>
  C2. Increasing every header of the document \<open># A / ## B / ### C\<close> by 1: the applier
  replaces the hashes of each line by the new hashes and a space, and the space that
  followed the old hashes stays, so that two spaces stand before the content.
\<close>

theorem increase_1_doubles_the_space:
  "map_option (\<lambda>(ed', msg). text_of_editor ed')
     (processHeaderAdjustment (editor_of_text ''# A\<newline>## B\<newline>### C\<newline>'') increase 1 None None)
     = Some ''##  A\<newline>###  B\<newline>####  C\<newline>'' \<and>
   map_option (\<lambda>(ed', msg). text_of_editor ed')
     (processHeaderAdjustment (editor_of_text ''# A\<newline>## B\<newline>### C\<newline>'') increase 1 None None)
     \<noteq> Some ''## A\<newline>### B\<newline>#### C\<newline>''"
proof -
  have e: "map_option (\<lambda>(ed', msg). text_of_editor ed')
     (processHeaderAdjustment (editor_of_text ''# A\<newline>## B\<newline>### C\<newline>'') increase 1 None None)
     = Some ''##  A\<newline>###  B\<newline>####  C\<newline>''"
    by code_simp
  show ?thesis unfolding e by simp
qed

text \<open>
  The first version rewrites the line of a header whose level stays: a header at level 1
  with a tab behind its hash, decreased by 1, keeps its level and gets a space for the tab.
\<close>

theorem legacy_rewrites_unchanged_header:
  "createHeaderObjects [''#'' @ [CHR 0x09] @ ''A''] None None =
     Some [\<lparr>lg_level = 1, lg_lineNumber = 1, lg_parent = None, lg_children = []\<rparr>] \<and>
   map lg_level (fold (lg_update_header decrease 1) [0..<1]
       [\<lparr>lg_level = 1, lg_lineNumber = 1, lg_parent = None, lg_children = []\<rparr>]) = [1] \<and>
   adjustHeaders [''#'' @ [CHR 0x09] @ ''A''] decrease 1 None None = Some [''# A''] \<and>
   [''# A''] \<noteq> [''#'' @ [CHR 0x09] @ ''A'']"
proof -
  have 1: "createHeaderObjects [''#'' @ [CHR 0x09] @ ''A''] None None =
     Some [\<lparr>lg_level = 1, lg_lineNumber = 1, lg_parent = None, lg_children = []\<rparr>]"
    by code_simp
  have 2: "map lg_level (fold (lg_update_header decrease 1) [0..<1]
       [\<lparr>lg_level = 1, lg_lineNumber = 1, lg_parent = None, lg_children = []\<rparr>]) = [1]"
    by code_simp
  have 3: "adjustHeaders [''#'' @ [CHR 0x09] @ ''A''] decrease 1 None None = Some [''# A'']"
    by code_simp
  have 4: "[''# A''] \<noteq> [''#'' @ [CHR 0x09] @ ''A'']" by simp
  from 1 2 3 4 show ?thesis by blast
qed

section \<open>The first version and the lines it rewrites\<close>

subsection \<open>The first version touches header lines only\<close>

lemma lg_apply_header_frame:
  assumes "lg_apply_header h ed = Some ed'"
  shows "length ed' = length ed" "i \<noteq> nat (lg_lineNumber h - 1) \<Longrightarrow> ed' ! i = ed ! i"
  using assms by (auto simp: lg_apply_header_def Let_def split: option.splits)

lemma lg_applyHeaderChanges_frame:
  assumes "lg_applyHeaderChanges ed hs = Some ed'"
  shows "length ed' = length ed \<and> ((\<forall>h\<in>set hs. nat (lg_lineNumber h - 1) \<noteq> i) \<longrightarrow> ed' ! i = ed ! i)"
  using assms
proof (induction hs arbitrary: ed)
  case Nil
  then show ?case by simp
next
  case (Cons h hs)
  from Cons.prems obtain ed1 where 1: "lg_apply_header h ed = Some ed1"
    and 2: "lg_applyHeaderChanges ed1 hs = Some ed'"
    by (auto split: option.splits)
  from Cons.IH[OF 2] lg_apply_header_frame[OF 1] show ?case by auto
qed

lemma map_lineNumber_update:
  assumes "lg_lineNumber y = lg_lineNumber (hs ! p)"
  shows "map lg_lineNumber (hs[p := y]) = map lg_lineNumber hs"
proof (cases "p < length hs")
  case True
  with assms show ?thesis by (simp add: map_update list_update_same_conv)
next
  case False
  then have "hs[p := y] = hs" by (simp add: list_update_beyond)
  then show ?thesis by simp
qed

lemma map_lineNumber_lg_push_child:
  "map lg_lineNumber (lg_push_child hs p k) = map lg_lineNumber hs"
  unfolding lg_push_child_def by (rule map_lineNumber_update) simp

lemma map_lineNumber_lg_update_header:
  "map lg_lineNumber (lg_update_header operation m i hs) = map lg_lineNumber hs"
  unfolding lg_update_header_def Let_def
  by (auto intro!: map_lineNumber_update)

lemma map_lineNumber_fold_lg_update:
  "map lg_lineNumber (fold (lg_update_header operation m) is hs) = map lg_lineNumber hs"
  by (induction "is" arbitrary: hs) (simp_all add: map_lineNumber_lg_update_header)

lemma create_line_lineNumbers:
  assumes "create_line ed sl el st i = Some st'"
  shows "map lg_lineNumber (fst st') = map lg_lineNumber (fst st) \<or>
         (map lg_lineNumber (fst st') = map lg_lineNumber (fst st) @ [i + 1] \<and>
          lg_in_range sl el i \<and> headerPattern (getLine ed i) \<noteq> None)"
proof (cases "lg_in_range sl el i \<and> headerPattern (getLine ed i) \<noteq> None")
  case False
  with assms have "st' = st"
    by (auto simp: create_line_def lg_in_range_def split: if_splits option.splits)
  then show ?thesis by simp
next
  case True
  with assms have "map lg_lineNumber (fst st') = map lg_lineNumber (fst st) @ [i + 1]"
    by (auto simp: create_line_def lg_in_range_def Let_def map_lineNumber_lg_push_child
        split: if_splits option.splits)
  with True show ?thesis by simp
qed

lemma create_loop_lineNumbers:
  assumes "create_loop ed sl el st is = Some st'"
    and "ln \<in> lg_lineNumber ` set (fst st')"
  shows "ln \<in> lg_lineNumber ` set (fst st) \<or>
         (ln - 1 \<in> set is \<and> lg_in_range sl el (ln - 1) \<and> headerPattern (getLine ed (ln - 1)) \<noteq> None)"
  using assms
proof (induction "is" arbitrary: st)
  case Nil
  then show ?case by simp
next
  case (Cons i "is")
  from Cons.prems(1) obtain st1 where 1: "create_line ed sl el st i = Some st1"
    and 2: "create_loop ed sl el st1 is = Some st'"
    by (auto split: option.splits)
  from Cons.IH[OF 2 Cons.prems(2)] consider
    (old) "ln \<in> lg_lineNumber ` set (fst st1)"
    | (later) "ln - 1 \<in> set is" "lg_in_range sl el (ln - 1)" "headerPattern (getLine ed (ln - 1)) \<noteq> None"
    by blast
  then show ?case
  proof cases
    case later
    then show ?thesis by simp
  next
    case old
    from create_line_lineNumbers[OF 1] consider
      (same) "map lg_lineNumber (fst st1) = map lg_lineNumber (fst st)"
      | (new) "map lg_lineNumber (fst st1) = map lg_lineNumber (fst st) @ [i + 1]"
          "lg_in_range sl el i" "headerPattern (getLine ed i) \<noteq> None"
      by blast
    then show ?thesis
    proof cases
      case same
      then have "lg_lineNumber ` set (fst st1) = lg_lineNumber ` set (fst st)"
        by (metis set_map)
      with old show ?thesis by simp
    next
      case new
      from new(1) have "lg_lineNumber ` set (fst st1) = insert (i + 1) (lg_lineNumber ` set (fst st))"
        by (metis set_map set_append list.simps(15) empty_set Un_insert_right sup_bot.right_neutral)
      with old have "ln = i + 1 \<or> ln \<in> lg_lineNumber ` set (fst st)" by blast
      with new(2,3) show ?thesis by auto
    qed
  qed
qed

lemma legacy_frame:
  assumes a: "adjustHeaders ed operation m sl el = Some ed'"
  shows "length ed' = length ed \<and>
     (\<forall>i<length ed. headerPattern (ed ! i) = None \<or> \<not> lg_in_range sl el (int i) \<longrightarrow> ed' ! i = ed ! i)"
proof -
  from a obtain hs where c: "createHeaderObjects ed sl el = Some hs"
    by (auto simp: adjustHeaders_def split: option.splits)
  define order where "order = (if operation = increase then rev [0..<length hs] else [0..<length hs])"
  define updated where "updated = fold (lg_update_header operation m) order hs"
  from a c have ap: "lg_applyHeaderChanges ed (map (\<lambda>i. updated ! i) order) = Some ed'"
    by (simp add: adjustHeaders_def Let_def order_def updated_def)
  have lu: "map lg_lineNumber updated = map lg_lineNumber hs"
    unfolding updated_def by (rule map_lineNumber_fold_lg_update)
  then have len: "length updated = length hs" by (metis length_map)
  from c obtain st' where cl: "create_loop ed sl el ([], None) [0..lineCount ed - 1] = Some st'"
    and hs: "hs = fst st'" by (auto simp: createHeaderObjects_def)
  have hl: "0 \<le> lg_lineNumber h - 1 \<and> lg_in_range sl el (lg_lineNumber h - 1) \<and>
            headerPattern (getLine ed (lg_lineNumber h - 1)) \<noteq> None"
    if "h \<in> set (map (\<lambda>i. updated ! i) order)" for h
  proof -
    from that obtain j where "j \<in> set order" "h = updated ! j" by auto
    then have "j < length hs" by (auto simp: order_def split: if_splits)
    with \<open>h = updated ! j\<close> len have "lg_lineNumber h \<in> set (map lg_lineNumber updated)"
      by (metis in_set_conv_nth length_map nth_map)
    with lu hs have "lg_lineNumber h \<in> lg_lineNumber ` set (fst st')" by simp
    from create_loop_lineNumbers[OF cl this] show ?thesis by auto
  qed
  show ?thesis
  proof (intro conjI allI impI)
    from lg_applyHeaderChanges_frame[OF ap] show "length ed' = length ed" by simp
  next
    fix i assume i: "i < length ed"
      and n: "headerPattern (ed ! i) = None \<or> \<not> lg_in_range sl el (int i)"
    have "\<forall>h\<in>set (map (\<lambda>i. updated ! i) order). nat (lg_lineNumber h - 1) \<noteq> i"
    proof
      fix h assume "h \<in> set (map (\<lambda>i. updated ! i) order)"
      from hl[OF this] n show "nat (lg_lineNumber h - 1) \<noteq> i"
        by (auto simp: getLine_def)
    qed
    with lg_applyHeaderChanges_frame[OF ap, of i] show "ed' ! i = ed ! i" by simp
  qed
qed

section \<open>The line of a changed header\<close>

lemma fold_apply_change_hit:
  assumes "distinct (map (\<lambda>c. nat (line (change_from c))) cs)" and "c \<in> set cs"
    and "nat (line (change_from c)) < length ed"
  shows "fold (apply_change old) cs ed ! nat (line (change_from c)) =
           replace_in_line (old ! nat (line (change_from c)))
             (ch (change_from c)) (ch (change_to c)) (change_text c)"
  using assms
proof (induction cs arbitrary: ed)
  case Nil
  then show ?case by simp
next
  case (Cons a cs)
  show ?case
  proof (cases "c = a")
    case True
    from Cons.prems(1) have "\<forall>c'\<in>set cs. nat (line (change_from c')) \<noteq> nat (line (change_from a))"
      by (metis (no_types, lifting) distinct.simps(2) image_eqI list.simps(9) set_map)
    then have "fold (apply_change old) cs (apply_change old a ed) ! nat (line (change_from a))
        = apply_change old a ed ! nat (line (change_from a))"
      by (rule fold_apply_change_other)
    moreover from Cons.prems(3) True have "apply_change old a ed ! nat (line (change_from a))
        = replace_in_line (old ! nat (line (change_from a)))
             (ch (change_from a)) (ch (change_to a)) (change_text a)"
      by (simp add: apply_change_def)
    ultimately show ?thesis unfolding True by simp
  next
    case False
    with Cons.prems have "c \<in> set cs" "distinct (map (\<lambda>c. nat (line (change_from c))) cs)"
      "nat (line (change_from c)) < length (apply_change old a ed)"
      by (simp_all add: apply_change_def)
    from Cons.IH[OF this(2,1,3)] show ?thesis by simp
  qed
qed

lemma matched_line_shape:
  assumes "HEADER_REGEX s = Some (h, b)"
  shows "\<exists>ws. ws \<noteq> [] \<and> list_all js_whitespace ws \<and> s = h @ ws @ b \<and> drop (length h) s = ws @ b"
proof -
  let ?rest = "dropWhile (\<lambda>c. c = CHR ''#'') s"
  let ?ws = "takeWhile js_whitespace ?rest"
  from HEADER_REGEX_Some(4,5,6)[OF assms] have h: "h = takeWhile (\<lambda>c. c = CHR ''#'') s"
    and b: "b = dropWhile js_whitespace ?rest" and ne: "?ws \<noteq> []" by auto
  have 1: "s = h @ ?rest" unfolding h by simp
  have 2: "?rest = ?ws @ b" unfolding b by simp
  have 3: "list_all js_whitespace ?ws" by (auto simp: list_all_iff dest: set_takeWhileD)
  have 4: "drop (length h) s = ?rest" unfolding h by (simp add: dropWhile_eq_drop)
  from 1 2 3 4 ne show ?thesis by (intro exI[of _ ?ws]) auto
qed

text \<open>
  What a run makes of the line of a header whose level changed: the new hashes, one space,
  and then all of the old line behind its hashes, white space first.
\<close>

lemma changed_line_keeps_old_space:
  assumes r: "\<not> start_of frl > end_of ed tol" "0 < m"
    and p: "parseHeaders ed (start_of frl) (end_of ed tol) = Some hs"
    and h: "h \<in> set (updateHeaderLevels hs operation m)" "changed h"
  shows "\<exists>ed' msg ws. processHeaderAdjustment ed operation m frl tol = Some (ed', msg) \<and>
           ws \<noteq> [] \<and> list_all js_whitespace ws \<and>
           ed ! nat (lineNumber h - 1) = replicate (nat (originalLevel h)) CHR ''#'' @ ws @ content h \<and>
           ed' ! nat (lineNumber h - 1) = replicate (nat (level h)) CHR ''#'' @ '' '' @ ws @ content h"
proof -
  let ?hs = "updateHeaderLevels hs operation m"
  let ?cs = "map header_change (filter changed (sort_descending ?hs))"
  let ?l = "nat (lineNumber h - 1)"
  from h(1) have "length hs \<noteq> 0" by (auto simp: in_set_conv_nth)
  then have ne: "hs \<noteq> []" by simp
  from updated_header_lines[OF p h(1)]
  have hl: "header_of_line ed (max 0 (start_of frl)) (min (lineCount ed - 1) (end_of ed tol)) h" .
  then have l: "?l < length ed" and g: "getLine ed (lineNumber h - 1) = ed ! ?l"
    and m: "HEADER_REGEX (ed ! ?l) = Some (replicate (nat (originalLevel h)) CHR ''#'', content h)"
    by (auto simp: header_of_line_def lineCount_def getLine_def)
  from matched_line_shape[OF m] obtain ws where ws: "ws \<noteq> []" "list_all js_whitespace ws"
    "ed ! ?l = replicate (nat (originalLevel h)) CHR ''#'' @ ws @ content h"
    "drop (nat (originalLevel h)) (ed ! ?l) = ws @ content h" by auto
  have sorted: "sorted_wrt (<) (map lineNumber hs)"
    using parseHeaders_lines[OF p] by (simp add: lines_ok_def)
  have "map lineNumber ?hs = map lineNumber hs"
    using same_shape_updateHeaderLevels[of hs operation m]
    by (intro nth_equalityI) (auto simp: same_shape_def)
  with sorted have d: "distinct (map lineNumber ?hs)"
    by (simp add: strict_sorted_iff)
  have pos: "\<forall>x\<in>set ?hs. 1 \<le> lineNumber x"
  proof
    fix x assume "x \<in> set ?hs"
    from updated_header_lines[OF p this] show "1 \<le> lineNumber x" by (simp add: header_of_line_def)
  qed
  have inj: "inj_on (\<lambda>x. nat (lineNumber x - 1)) (set ?hs)"
  proof (rule inj_onI)
    fix x y assume x: "x \<in> set ?hs" and y: "y \<in> set ?hs"
      and e: "nat (lineNumber x - 1) = nat (lineNumber y - 1)"
    with pos have "lineNumber x = lineNumber y" by (metis diff_ge_0_iff_ge nat_eq_iff2 diff_add_cancel)
    with d x y show "x = y" by (meson distinct_map inj_onD)
  qed
  have dh: "distinct ?hs" using d by (simp add: distinct_map)
  have eq: "(\<lambda>c. nat (line (change_from c))) \<circ> header_change = (\<lambda>x. nat (lineNumber x - 1))"
    by (rule ext) (simp add: header_change_def)
  have "distinct (map (\<lambda>x. nat (lineNumber x - 1)) (filter changed (sort_descending ?hs)))"
    using dh inj by (auto simp: distinct_map sort_descending_def intro: inj_on_subset)
  then have dc: "distinct (map (\<lambda>c. nat (line (change_from c))) ?cs)"
    unfolding map_map eq .
  from h have hc: "header_change h \<in> set ?cs" by simp
  have cl: "nat (line (change_from (header_change h))) = ?l" by (simp add: header_change_def)
  from pos h(1) have o: "0 \<le> originalLevel h" using m HEADER_REGEX_Some(1)[OF m] by (cases "0 \<le> originalLevel h") auto
  from fold_apply_change_hit[OF dc hc, of ed ed] l
  have "transaction ed ?cs ! ?l = replace_in_line (ed ! ?l) 0 (originalLevel h)
          (replicate (nat (level h)) CHR ''#'' @ '' '')"
    by (simp add: transaction_def header_change_def)
  with ws(4) have "transaction ed ?cs ! ?l = replicate (nat (level h)) CHR ''#'' @ '' '' @ ws @ content h"
    by (simp add: replace_in_line_def)
  with process_run[OF r p ne, of operation] ws(1,2,3) show ?thesis by auto
qed

section \<open>The lines a run leaves alone, in both versions\<close>

text \<open>
  C7, as far as it holds. After a run of \<open>processHeaderAdjustment\<close> the buffer has the
  lines it had, and every line but the lines of headers whose adjusted level differs from
  their original level is what it was; such a line lies within the range and matches the
  header pattern. The first version of the plugin, when its run returns, leaves the lines
  that do not match its pattern and the lines outside its range as they were.
\<close>

theorem untouched_lines:
  "(\<exists>ed' msg. processHeaderAdjustment ed operation m frl tol = Some (ed', msg) \<and>
     length ed' = length ed \<and>
     (\<forall>i<length ed. \<not> changed_header_line ed operation m (start_of frl) (end_of ed tol) i
          \<longrightarrow> ed' ! i = ed ! i) \<and>
     (\<forall>i<length ed. changed_header_line ed operation m (start_of frl) (end_of ed tol) i
          \<longrightarrow> start_of frl \<le> int i \<and> int i \<le> end_of ed tol \<and> HEADER_REGEX (ed ! i) \<noteq> None)) \<and>
   (\<forall>ed'. adjustHeaders ed operation m startLine endLine = Some ed' \<longrightarrow>
      length ed' = length ed \<and>
      (\<forall>i<length ed. headerPattern (ed ! i) = None \<or> \<not> lg_in_range startLine endLine (int i)
          \<longrightarrow> ed' ! i = ed ! i))"
proof (intro conjI allI impI)
  show "\<exists>ed' msg. processHeaderAdjustment ed operation m frl tol = Some (ed', msg) \<and>
     length ed' = length ed \<and>
     (\<forall>i<length ed. \<not> changed_header_line ed operation m (start_of frl) (end_of ed tol) i
          \<longrightarrow> ed' ! i = ed ! i) \<and>
     (\<forall>i<length ed. changed_header_line ed operation m (start_of frl) (end_of ed tol) i
          \<longrightarrow> start_of frl \<le> int i \<and> int i \<le> end_of ed tol \<and> HEADER_REGEX (ed ! i) \<noteq> None)"
    using run_frame[of ed operation m frl tol]
      changed_header_line_matches[of ed operation m "start_of frl" "end_of ed tol"]
    by fastforce
next
  fix ed' assume "adjustHeaders ed operation m startLine endLine = Some ed'"
  from legacy_frame[OF this] show "length ed' = length ed" by simp
next
  fix ed' i assume "adjustHeaders ed operation m startLine endLine = Some ed'" "i < length ed"
    "headerPattern (ed ! i) = None \<or> \<not> lg_in_range startLine endLine (int i)"
  with legacy_frame[of ed operation m startLine endLine ed'] show "ed' ! i = ed ! i" by blast
qed

theorem untouched_lines_witness:
  "(\<exists>ed' msg. processHeaderAdjustment [''# A'', ''note'', ''## B''] increase 1 None None = Some (ed', msg) \<and>
     ed' = [''##  A'', ''note'', ''###  B''] \<and>
     \<not> changed_header_line [''# A'', ''note'', ''## B''] increase 1 0 2 1 \<and>
     ed' ! 1 = [''# A'', ''note'', ''## B''] ! 1 \<and>
     changed_header_line [''# A'', ''note'', ''## B''] increase 1 0 2 0 \<and>
     HEADER_REGEX ([''# A'', ''note'', ''## B''] ! 0) \<noteq> None) \<and>
   (\<exists>ed'. adjustHeaders [''# A'', ''note'', ''## B''] increase 1 (Some 2) None = Some ed' \<and>
     ed' = [''# A'', ''note'', ''### B''] \<and>
     \<not> lg_in_range (Some 2) None (int 0) \<and> headerPattern ([''# A'', ''note'', ''## B''] ! 1) = None \<and>
     ed' ! 0 = [''# A'', ''note'', ''## B''] ! 0 \<and> ed' ! 1 = [''# A'', ''note'', ''## B''] ! 1)"
proof -
  let ?ed = "[''# A'', ''note'', ''## B'']"
  have se: "start_of None = 0" "end_of ?ed None = 2" by (simp_all add: start_of_def end_of_def lineCount_def)
  note t = untouched_lines[where ed="?ed" and operation=increase and m=1 and frl=None and tol=None
      and startLine="Some 2" and endLine=None, unfolded se]
  from t obtain ed' msg where
    r: "processHeaderAdjustment ?ed increase 1 None None = Some (ed', msg)"
    and u: "\<forall>i<length ?ed. \<not> changed_header_line ?ed increase 1 0 2 i \<longrightarrow> ed' ! i = ?ed ! i"
    and c: "\<forall>i<length ?ed. changed_header_line ?ed increase 1 0 2 i \<longrightarrow> HEADER_REGEX (?ed ! i) \<noteq> None"
    by blast
  have e: "processHeaderAdjustment ?ed increase 1 None None =
             Some ([''##  A'', ''note'', ''###  B''], Notice ''Adjusted 2 header(s).'')"
    by code_simp
  have n: "\<not> changed_header_line ?ed increase 1 0 2 1"
    "changed_header_line ?ed increase 1 0 2 0" by code_simp+
  have l: "0 < length ?ed" "1 < length ?ed" by simp_all
  from u l n have "ed' ! 1 = ?ed ! 1" by blast
  moreover from c l n have "HEADER_REGEX (?ed ! 0) \<noteq> None" by blast
  moreover from r e have "ed' = [''##  A'', ''note'', ''###  B'']" by simp
  ultimately have first: "\<exists>ed' msg. processHeaderAdjustment ?ed increase 1 None None = Some (ed', msg) \<and>
     ed' = [''##  A'', ''note'', ''###  B''] \<and>
     \<not> changed_header_line ?ed increase 1 0 2 1 \<and>
     ed' ! 1 = ?ed ! 1 \<and>
     changed_header_line ?ed increase 1 0 2 0 \<and> HEADER_REGEX (?ed ! 0) \<noteq> None"
    using r n by blast
  have a: "adjustHeaders ?ed increase 1 (Some 2) None = Some [''# A'', ''note'', ''### B'']"
    by code_simp
  have o: "\<not> lg_in_range (Some 2) None (int 0)" by (simp add: lg_in_range_def)
  have h: "headerPattern (?ed ! 1) = None" by code_simp
  from t a have f: "\<forall>i<length ?ed. headerPattern (?ed ! i) = None \<or> \<not> lg_in_range (Some 2) None (int i)
          \<longrightarrow> [''# A'', ''note'', ''### B''] ! i = ?ed ! i" by blast
  from f l(1) o have "[''# A'', ''note'', ''### B''] ! 0 = ?ed ! 0" by blast
  moreover from f l(2) h have "[''# A'', ''note'', ''### B''] ! 1 = ?ed ! 1" by blast
  ultimately have second: "\<exists>ed'. adjustHeaders ?ed increase 1 (Some 2) None = Some ed' \<and>
     ed' = [''# A'', ''note'', ''### B''] \<and>
     \<not> lg_in_range (Some 2) None (int 0) \<and> headerPattern (?ed ! 1) = None \<and>
     ed' ! 0 = ?ed ! 0 \<and> ed' ! 1 = ?ed ! 1"
    using a o h by blast
  from first second show ?thesis by blast
qed

end
